theory Spec2Isabelle
  imports Complex_Main "HOL-Library.AList" "HOL-Library.Sublist"
begin

section \<open>Python strings\<close>

text \<open>
  A Python \<open>str\<close> is modelled as a \<open>string\<close>; each \<open>char\<close> stands for one code
  point below 256. The scripts only ever test characters against ASCII literals, against
  white space and against decimal digits, so nothing in the code looks at a code point in
  any other way.
\<close>

text \<open>
  \<open>str.isspace\<close> on one character; \<open>str.strip()\<close>, \<open>str.split()\<close> and the regular
  expression class \<open>\s\<close> all use this set. Below 256 it holds the code points
  9 to 13, 28 to 32, 133 and 160.
\<close>

definition isspace :: "char \<Rightarrow> bool" where
  "isspace c = (c \<in> set [CHR 0x09, CHR 0x0A, CHR 0x0B, CHR 0x0C, CHR 0x0D,
                          CHR 0x1C, CHR 0x1D, CHR 0x1E, CHR 0x1F, CHR 0x20,
                          CHR 0x85, CHR 0xA0])"

text \<open>The class \<open>\d\<close>: below 256 the decimal digits are the ASCII ones.\<close>

definition isdigit :: "char \<Rightarrow> bool" where
  "isdigit c = (c \<in> set ''0123456789'')"

text \<open>The class \<open>[A-Z]\<close>.\<close>

definition isupper_ascii :: "char \<Rightarrow> bool" where
  "isupper_ascii c = (c \<in> set ''ABCDEFGHIJKLMNOPQRSTUVWXYZ'')"

text \<open>The class \<open>[a-zA-Z]\<close>.\<close>

definition isalpha_ascii :: "char \<Rightarrow> bool" where
  "isalpha_ascii c = (c \<in> set ''abcdefghijklmnopqrstuvwxyz'' \<or> isupper_ascii c)"

text \<open>\<open>s.startswith(p)\<close>.\<close>

definition startswith :: "string \<Rightarrow> string \<Rightarrow> bool" where
  "startswith s p = (take (length p) s = p)"

text \<open>\<open>s.strip()\<close>: white space removed at both ends.\<close>

definition strip :: "string \<Rightarrow> string" where
  "strip s = rev (dropWhile isspace (rev (dropWhile isspace s)))"

text \<open>
  \<open>s.split(sep)\<close> for a one-character separator: the result always has one more
  element than \<open>s\<close> has separators, so it is never empty.
\<close>

fun split_on :: "char \<Rightarrow> string \<Rightarrow> string list" where
  "split_on sep [] = [[]]"
| "split_on sep (c # cs) =
     (if c = sep then [] # split_on sep cs
      else (case split_on sep cs of
              [] \<Rightarrow> [[c]]
            | w # ws \<Rightarrow> (c # w) # ws))"

text \<open>
  \<open>s.split()\<close> without arguments: the maximal runs of characters that are not white
  space, in order.
\<close>

function split_ws :: "string \<Rightarrow> string list" where
  "split_ws s =
     (let t = dropWhile isspace s
      in if t = [] then []
         else takeWhile (\<lambda>c. \<not> isspace c) t # split_ws (dropWhile (\<lambda>c. \<not> isspace c) t))"
  by pat_completeness auto
termination
proof (relation "measure length")
  show "wf (measure length)" by simp
next
  fix s t :: string
  assume t: "t = dropWhile isspace s" and ne: "t \<noteq> []"
  have "length (dropWhile (\<lambda>c. \<not> isspace c) t) < length t"
  proof (cases t)
    case Nil
    with ne show ?thesis by simp
  next
    case (Cons a u)
    then have "\<not> isspace a"
      using t hd_dropWhile [of isspace s] ne by auto
    then have "dropWhile (\<lambda>c. \<not> isspace c) t = dropWhile (\<lambda>c. \<not> isspace c) u"
      using Cons by simp
    then show ?thesis
      using Cons length_dropWhile_le [of "\<lambda>c. \<not> isspace c" u] by simp
  qed
  moreover have "length t \<le> length s"
    using t length_dropWhile_le [of isspace s] by simp
  ultimately show "(dropWhile (\<lambda>c. \<not> isspace c) t, s) \<in> measure length"
    by simp
qed

declare split_ws.simps [simp del]

text \<open>\<open>sep.join(xs)\<close>.\<close>

fun join :: "string \<Rightarrow> string list \<Rightarrow> string" where
  "join sep [] = []"
| "join sep [x] = x"
| "join sep (x # y # ys) = x @ sep @ join sep (y # ys)"

section \<open>The regular expressions of the two scripts\<close>

text \<open>
  \<open>re.sub(pattern, repl, s)\<close> scans \<open>s\<close> from the left; where the pattern matches it
  writes \<open>repl\<close> and goes on behind the match, elsewhere it copies one character. None of
  the patterns below matches the empty string. In each of them every repetition is over a
  character class and is followed by a character outside that class (or by nothing), so the
  greedy match is the only candidate: the repetition takes the maximal run.
\<close>

text \<open>\<open>re.sub(r'[\[\]]', '', content)\<close> of the text extractor.\<close>

definition sub_brackets :: "string \<Rightarrow> string" where
  "sub_brackets s = filter (\<lambda>c. c \<noteq> CHR ''['' \<and> c \<noteq> CHR '']'') s"

text \<open>
  The pattern \<open><[^>]+>\<close> tried at the head of a string: the rest of the string behind
  the match, if it matches there.
\<close>

fun match_angle :: "string \<Rightarrow> string option" where
  "match_angle [] = None"
| "match_angle (c # cs) =
     (if c = CHR ''<'' \<and> takeWhile (\<lambda>x. x \<noteq> CHR ''>'') cs \<noteq> []
         \<and> dropWhile (\<lambda>x. x \<noteq> CHR ''>'') cs \<noteq> []
      then Some (tl (dropWhile (\<lambda>x. x \<noteq> CHR ''>'') cs))
      else None)"

text \<open>The pattern \<open>/RD-[^/]+/\<close> tried at the head of a string.\<close>

definition match_redaction :: "string \<Rightarrow> string option" where
  "match_redaction s =
     (let r = drop 4 s
      in if startswith s ''/RD-'' \<and> takeWhile (\<lambda>x. x \<noteq> CHR ''/'') r \<noteq> []
            \<and> dropWhile (\<lambda>x. x \<noteq> CHR ''/'') r \<noteq> []
         then Some (tl (dropWhile (\<lambda>x. x \<noteq> CHR ''/'') r))
         else None)"

text \<open>The pattern \<open>\([a-zA-Z]+\)\<close> tried at the head of a string.\<close>

fun match_descriptor :: "string \<Rightarrow> string option" where
  "match_descriptor [] = None"
| "match_descriptor (c # cs) =
     (if c = CHR ''('' \<and> takeWhile isalpha_ascii cs \<noteq> []
         \<and> startswith (dropWhile isalpha_ascii cs) '')''
      then Some (tl (dropWhile isalpha_ascii cs))
      else None)"

text \<open>
  The pattern \<open>/RD-[A-Z]+-\d+/\<close> of the word counter, tried at the head of a string.
\<close>

definition match_redaction_words :: "string \<Rightarrow> string option" where
  "match_redaction_words s =
     (let r = dropWhile isupper_ascii (drop 4 s);
          d = dropWhile isdigit (drop 1 r)
      in if startswith s ''/RD-'' \<and> takeWhile isupper_ascii (drop 4 s) \<noteq> []
            \<and> startswith r ''-'' \<and> takeWhile isdigit (drop 1 r) \<noteq> []
            \<and> startswith d ''/''
         then Some (tl d)
         else None)"

text \<open>
  \<open>re.sub(pattern, '', s)\<close> for a pattern given by its matcher. A match is never empty,
  so the scan goes on in a shorter string; the length test makes that visible to the
  termination proof and is true for each matcher above (lemmas \<open>match_angle_shorter\<close>,
  \<open>match_redaction_shorter\<close>, \<open>match_descriptor_shorter\<close> and
  \<open>match_redaction_words_shorter\<close>), so its \<open>else\<close> branch is never taken.
\<close>

function re_sub_del :: "(string \<Rightarrow> string option) \<Rightarrow> string \<Rightarrow> string" where
  "re_sub_del m [] = []"
| "re_sub_del m (c # cs) =
     (case m (c # cs) of
        Some rest \<Rightarrow> if length rest \<le> length cs then re_sub_del m rest
                     else c # re_sub_del m cs
      | None \<Rightarrow> c # re_sub_del m cs)"
  by pat_completeness auto
termination
  by (relation "measure (\<lambda>(m, s). length s)") auto

text \<open>\<open>re.sub(r'<[^>]+>', '', content)\<close>.\<close>

definition sub_angle :: "string \<Rightarrow> string" where
  "sub_angle = re_sub_del match_angle"

text \<open>\<open>re.sub(r'/RD-[^/]+/', '', content)\<close>.\<close>

definition sub_redaction :: "string \<Rightarrow> string" where
  "sub_redaction = re_sub_del match_redaction"

text \<open>\<open>re.sub(r'\([a-zA-Z]+\)', '', content)\<close>.\<close>

definition sub_descriptor :: "string \<Rightarrow> string" where
  "sub_descriptor = re_sub_del match_descriptor"

text \<open>\<open>re.sub(r'[<\[\]/]', ' ', content)\<close> of the word counter.\<close>

definition sub_markup_words :: "string \<Rightarrow> string" where
  "sub_markup_words s = map (\<lambda>c. if c \<in> set ''<[]/'' then CHR '' '' else c) s"

text \<open>\<open>re.sub(r'/RD-[A-Z]+-\d+/', '', content)\<close> of the word counter.\<close>

definition sub_redaction_words :: "string \<Rightarrow> string" where
  "sub_redaction_words = re_sub_del match_redaction_words"

section \<open>One transcript line\<close>

text \<open>
  Both loops start with \<open>parts = line.strip().split('\t')\<close> and read \<open>parts[3]\<close> under
  the guard \<open>len(parts) >= 4\<close>.
\<close>

definition line_parts :: "string \<Rightarrow> string list" where
  "line_parts line = split_on (CHR 0x09) (strip line)"

definition line_content :: "string \<Rightarrow> string option" where
  "line_content line =
     (if 4 \<le> length (line_parts line) then Some (line_parts line ! 3) else None)"

text \<open>
  Lines 63 to 76 of \<open>push_to_huggingface.py\<close>: the four substitutions, then
  \<open>' '.join(content.split())\<close>.
\<close>

definition clean_text :: "string \<Rightarrow> string" where
  "clean_text content =
     join '' '' (split_ws (sub_descriptor (sub_redaction (sub_angle (sub_brackets content)))))"

text \<open>
  The body of the loop of \<open>extract_text_from_txt\<close>: the list \<open>texts\<close> after one line.
\<close>

definition text_line :: "string \<Rightarrow> string list \<Rightarrow> string list" where
  "text_line line texts =
     (case line_content line of
        None \<Rightarrow> texts
      | Some content \<Rightarrow>
          if startswith content ''(pause'' then texts
          else if content = [] then texts
          else if clean_text content \<noteq> [] then texts @ [clean_text content]
          else texts)"

text \<open>
  Lines 36 to 44 of \<open>verify_stats.py\<close>: the list \<open>words\<close> whose length is added to
  the count.
\<close>

definition count_tokens :: "string \<Rightarrow> string list" where
  "count_tokens content =
     filter (\<lambda>w. w \<noteq> [] \<and> \<not> startswith w ''RD-'')
       (split_ws (sub_redaction_words (sub_markup_words content)))"

text \<open>
  The body of the loop of \<open>count_words_from_txt\<close>: \<open>word_count\<close> after one line.
\<close>

definition count_line :: "string \<Rightarrow> nat \<Rightarrow> nat" where
  "count_line line word_count =
     (case line_content line of
        None \<Rightarrow> word_count
      | Some content \<Rightarrow>
          if startswith content ''(pause'' then word_count
          else if content = [] then word_count
          else word_count + length (count_tokens content))"

section \<open>Files, exceptions and console output\<close>

text \<open>
  The exceptions that reach the handlers \<open>except Exception\<close> of the functions below:
  \<open>next(f)\<close> at the end of the file, a failure of \<open>open\<close> or of a read (with its
  message), and \<open>float\<close> refusing its argument.
\<close>

datatype py_exn = StopIteration | OSError string | ValueError string

fun exn_str :: "py_exn \<Rightarrow> string" where
  "exn_str StopIteration = []"
| "exn_str (OSError msg) = msg"
| "exn_str (ValueError msg) = msg"

text \<open>
  A file as the code meets it: \<open>open\<close> fails, or it gives a handle whose successive
  reads each give a line or fail. The end of the list is the end of the file; what stands
  behind a failing read is never reached.
\<close>

datatype read_event = Line string | ReadFails string

datatype py_file = OpenFails string | Opened "read_event list"

text \<open>\<open>print(f"Error reading {path}: {e}")\<close>: the line written to the console.\<close>

definition error_reading :: "string \<Rightarrow> py_exn \<Rightarrow> string" where
  "error_reading path e = ''Error reading '' @ path @ '': '' @ exn_str e"

section \<open>The text extractor\<close>

text \<open>\<open>for line in f\<close> of \<open>extract_text_from_txt\<close>, with the list \<open>texts\<close>.\<close>

fun text_loop :: "read_event list \<Rightarrow> string list \<Rightarrow> py_exn + string list" where
  "text_loop [] texts = Inr texts"
| "text_loop (ReadFails msg # rest) texts = Inl (OSError msg)"
| "text_loop (Line l # rest) texts = text_loop rest (text_line l texts)"

text \<open>The \<open>try\<close> block: \<open>open\<close>, \<open>next(f)\<close> for the header, the loop.\<close>

fun text_try :: "py_file \<Rightarrow> py_exn + string list" where
  "text_try (OpenFails msg) = Inl (OSError msg)"
| "text_try (Opened []) = Inl StopIteration"
| "text_try (Opened (ReadFails msg # rest)) = Inl (OSError msg)"
| "text_try (Opened (Line header # rest)) = text_loop rest []"

text \<open>
  \<open>extract_text_from_txt\<close>: the returned string and the lines printed. The handler
  prints and returns the empty string.
\<close>

definition extract_text_from_txt :: "string \<Rightarrow> py_file \<Rightarrow> string \<times> string list" where
  "extract_text_from_txt txt_path f =
     (case text_try f of
        Inl e \<Rightarrow> ([], [error_reading txt_path e])
      | Inr texts \<Rightarrow> (join '' '' texts, []))"

section \<open>The word counter\<close>

text \<open>
  \<open>for line in f\<close> of \<open>count_words_from_txt\<close>. The variable \<open>word_count\<close> lives
  outside the \<open>try\<close> block, so the loop gives its value together with the exception that
  ended it, if one did.
\<close>

fun count_loop :: "read_event list \<Rightarrow> nat \<Rightarrow> py_exn option \<times> nat" where
  "count_loop [] word_count = (None, word_count)"
| "count_loop (ReadFails msg # rest) word_count = (Some (OSError msg), word_count)"
| "count_loop (Line l # rest) word_count = count_loop rest (count_line l word_count)"

fun count_try :: "py_file \<Rightarrow> py_exn option \<times> nat" where
  "count_try (OpenFails msg) = (Some (OSError msg), 0)"
| "count_try (Opened []) = (Some StopIteration, 0)"
| "count_try (Opened (ReadFails msg # rest)) = (Some (OSError msg), 0)"
| "count_try (Opened (Line header # rest)) = count_loop rest 0"

text \<open>
  \<open>count_words_from_txt\<close>: the handler only prints; the function then leaves through
  \<open>return word_count\<close> like the normal path.
\<close>

definition count_words_from_txt :: "string \<Rightarrow> py_file \<Rightarrow> nat \<times> string list" where
  "count_words_from_txt txt_path f =
     (case count_try f of
        (Some e, word_count) \<Rightarrow> (word_count, [error_reading txt_path e])
      | (None, word_count) \<Rightarrow> (word_count, []))"

section \<open>The duration extractor\<close>

text \<open>
  The pattern \<open>xmax\s*=\s*([\d.]+)\<close> tried at the head of a string: the text of group 1.
\<close>

definition match_xmax :: "string \<Rightarrow> string option" where
  "match_xmax s =
     (let r = dropWhile isspace (drop 4 s);
          g = takeWhile (\<lambda>c. isdigit c \<or> c = CHR ''.'') (dropWhile isspace (drop 1 r))
      in if startswith s ''xmax'' \<and> startswith r ''='' \<and> g \<noteq> [] then Some g else None)"

text \<open>\<open>re.search\<close> with that pattern: the leftmost position where it matches.\<close>

fun search_xmax :: "string \<Rightarrow> string option" where
  "search_xmax [] = None"
| "search_xmax (c # cs) =
     (case match_xmax (c # cs) of
        Some g \<Rightarrow> Some g
      | None \<Rightarrow> search_xmax cs)"

text \<open>
  The builtin \<open>float\<close> is a parameter of the model: \<open>to_float s\<close> is the number Python
  reads from \<open>s\<close>, or \<open>None\<close> where \<open>float\<close> raises \<open>ValueError\<close>. The literal \<open>0.0\<close>
  is the zero of the type of numbers.
\<close>

definition float_error :: "string \<Rightarrow> py_exn" where
  "float_error s = ValueError (''could not convert string to float: '' @ [CHR 0x27] @ s @ [CHR 0x27])"

text \<open>
  \<open>for line in f\<close> of \<open>get_duration_from_textgrid\<close>: \<open>Inr (Some v)\<close> is
  \<open>return float(match.group(1))\<close>, \<open>Inr None\<close> is the end of the loop.
\<close>

fun duration_loop :: "(string \<Rightarrow> 'f option) \<Rightarrow> read_event list \<Rightarrow> py_exn + 'f option" where
  "duration_loop to_float [] = Inr None"
| "duration_loop to_float (ReadFails msg # rest) = Inl (OSError msg)"
| "duration_loop to_float (Line l # rest) =
     (if startswith (strip l) ''xmax ='' then
        (case search_xmax l of
           Some g \<Rightarrow> (case to_float g of
                        Some v \<Rightarrow> Inr (Some v)
                      | None \<Rightarrow> Inl (float_error g))
         | None \<Rightarrow> duration_loop to_float rest)
      else duration_loop to_float rest)"

fun duration_try :: "(string \<Rightarrow> 'f option) \<Rightarrow> py_file \<Rightarrow> py_exn + 'f option" where
  "duration_try to_float (OpenFails msg) = Inl (OSError msg)"
| "duration_try to_float (Opened evs) = duration_loop to_float evs"

definition get_duration_from_textgrid ::
    "(string \<Rightarrow> 'f option) \<Rightarrow> string \<Rightarrow> py_file \<Rightarrow> ('f::zero) \<times> string list" where
  "get_duration_from_textgrid to_float textgrid_path f =
     (case duration_try to_float f of
        Inl e \<Rightarrow> (0, [error_reading textgrid_path e])
      | Inr None \<Rightarrow> (0, [])
      | Inr (Some v) \<Rightarrow> (v, []))"

section \<open>The metadata joiner\<close>

text \<open>
  A Python dictionary is an association list in insertion order without repeated keys;
  \<open>d[k] = v\<close> is \<open>AList.update k v d\<close> and \<open>d.get(k)\<close> is \<open>map_of d k\<close>.

  A row of \<open>csv.DictReader\<close> maps a column name to a string, to \<open>None\<close> (the
  \<open>restval\<close> of a short row), and the key \<open>None\<close> (the \<open>restkey\<close>) to the list of
  the fields beyond the header of a long row.
\<close>

datatype cell = Str string | NoneVal | Rest "string list"

type_synonym row = "(string option \<times> cell) list"

text \<open>
  \<open>csv.reader(f, delimiter='\t')\<close> on one line of a file read in text mode, for a line
  without the quote character \<open>"\<close>: the fields between the tabs, and no field at all
  for an empty line. Quoted fields are not modelled.
\<close>

definition csv_row :: "string \<Rightarrow> string list" where
  "csv_row line =
     (let body = takeWhile (\<lambda>c. c \<noteq> CHR 0x0A \<and> c \<noteq> CHR 0x0D) line
      in if body = [] then [] else split_on (CHR 0x09) body)"

text \<open>\<open>dict(pairs)\<close>.\<close>

definition dict_of :: "('k \<times> 'v) list \<Rightarrow> ('k \<times> 'v) list" where
  "dict_of pairs = foldl (\<lambda>d (k, v). AList.update k v d) [] pairs"

text \<open>
  The dictionary that \<open>DictReader.__next__\<close> builds from the header and one row of
  fields.
\<close>

definition dict_row :: "string list \<Rightarrow> string list \<Rightarrow> row" where
  "dict_row fieldnames r =
     (let d = dict_of (zip (map Some fieldnames) (map Str r));
          lf = length fieldnames;
          lr = length r
      in if lf < lr then AList.update None (Rest (drop lf r)) d
         else if lr < lf then foldl (\<lambda>d key. AList.update (Some key) NoneVal d) d (drop lr fieldnames)
         else d)"

text \<open>
  The rows a \<open>DictReader\<close> yields: the first row of fields is the header, rows without
  any field are passed over.
\<close>

fun dict_reader :: "string list list \<Rightarrow> row list" where
  "dict_reader [] = []"
| "dict_reader (fieldnames # rows) = map (dict_row fieldnames) (filter (\<lambda>r. r \<noteq> []) rows)"

text \<open>
  The body of the loop of \<open>load_metadata\<close>: \<open>file_id = row.get('CORAAL.File', '')\<close>,
  then \<open>metadata_dict[file_id] = row\<close> if \<open>file_id\<close> is true. Under a column name the
  reader stores a string or \<open>None\<close>.
\<close>

definition metadata_step :: "(string \<times> row) list \<Rightarrow> row \<Rightarrow> (string \<times> row) list" where
  "metadata_step metadata_dict r =
     (case map_of r (Some ''CORAAL.File'') of
        Some (Str file_id) \<Rightarrow>
          if file_id \<noteq> [] then AList.update file_id r metadata_dict else metadata_dict
      | _ \<Rightarrow> metadata_dict)"

text \<open>All lines of a file, or the exception that a failing read raises.\<close>

fun read_lines :: "read_event list \<Rightarrow> py_exn + string list" where
  "read_lines [] = Inr []"
| "read_lines (ReadFails msg # rest) = Inl (OSError msg)"
| "read_lines (Line l # rest) =
     (case read_lines rest of
        Inl e \<Rightarrow> Inl e
      | Inr ls \<Rightarrow> Inr (l # ls))"

text \<open>
  \<open>load_metadata\<close>, given the files that the search for
  \<open>COMPONENT_metadata_*.txt\<close> found: no file gives the empty dictionary, otherwise the
  first one is read; any exception gives the empty dictionary. The console output of this
  function is not modelled.
\<close>

fun load_metadata :: "py_file list \<Rightarrow> (string \<times> row) list" where
  "load_metadata [] = []"
| "load_metadata (OpenFails msg # others) = []"
| "load_metadata (Opened evs # others) =
     (case read_lines evs of
        Inl e \<Rightarrow> []
      | Inr ls \<Rightarrow> foldl metadata_step [] (dict_reader (map csv_row ls)))"

section \<open>File identifiers and samples\<close>

text \<open>\<open>s.rfind(c)\<close>: the last index of \<open>c\<close>, \<open>None\<close> for Python's \<open>-1\<close>.\<close>

definition rfind :: "char \<Rightarrow> string \<Rightarrow> nat option" where
  "rfind c s =
     (if c \<in> set s then Some (length s - Suc (length (takeWhile (\<lambda>x. x \<noteq> c) (rev s))))
      else None)"

text \<open>
  \<open>Path(p).name\<close> on a POSIX path: the last component, where empty components and
  \<open>.\<close> do not count.
\<close>

definition path_name :: "string \<Rightarrow> string" where
  "path_name p =
     (case filter (\<lambda>c. c \<noteq> [] \<and> c \<noteq> ''.'') (split_on (CHR ''/'') p) of
        [] \<Rightarrow> []
      | c # cs \<Rightarrow> last (c # cs))"

text \<open>
  \<open>Path(p).stem\<close>: the name up to its last dot, if that dot is neither the first nor the
  last character of the name.
\<close>

definition path_stem :: "string \<Rightarrow> string" where
  "path_stem p =
     (case rfind (CHR ''.'') (path_name p) of
        None \<Rightarrow> path_name p
      | Some i \<Rightarrow> if 0 < i \<and> Suc i < length (path_name p) then take i (path_name p)
                  else path_name p)"

text \<open>\<open>s.rsplit(sep, 1)\<close>.\<close>

definition rsplit1 :: "char \<Rightarrow> string \<Rightarrow> string list" where
  "rsplit1 sep s =
     (case rfind sep s of
        None \<Rightarrow> [s]
      | Some i \<Rightarrow> [take i s, drop (Suc i) s])"

text \<open>\<open>parse_filename\<close>. No other function of the repository calls it.\<close>

definition parse_filename :: "string \<Rightarrow> string" where
  "parse_filename filename =
     (let base = path_stem filename;
          parts = rsplit1 (CHR ''_'') base
      in if length parts = 2 then parts ! 0 else base)"

text \<open>
  In \<open>collect_dataset_samples\<close>, line 198: \<open>full_file_id = Path(wav_file).stem\<close>.
\<close>

definition full_file_id :: "string \<Rightarrow> string" where
  "full_file_id wav_file = path_stem wav_file"

text \<open>Line 201: \<open>file_metadata = metadata_dict.get(full_file_id, {})\<close>.\<close>

definition file_metadata :: "(string \<times> row) list \<Rightarrow> string \<Rightarrow> row" where
  "file_metadata metadata_dict wav_file =
     (case map_of metadata_dict (full_file_id wav_file) of
        None \<Rightarrow> []
      | Some r \<Rightarrow> r)"

text \<open>\<open>d.update(other)\<close>.\<close>

definition dict_update :: "('k \<times> 'v) list \<Rightarrow> ('k \<times> 'v) list \<Rightarrow> ('k \<times> 'v) list" where
  "dict_update d other = foldl (\<lambda>d (k, v). AList.update k v d) d other"

text \<open>
  Lines 210 to 218: the sample of one audio file whose transcript exists, from the path,
  the extracted text and the metadata dictionary of the component.
\<close>

definition make_sample :: "string \<Rightarrow> string \<Rightarrow> (string \<times> row) list \<Rightarrow> row" where
  "make_sample wav_file text metadata_dict =
     (let sample = [(Some ''audio'', Str wav_file),
                    (Some ''text'', Str text),
                    (Some ''file_id'', Str (full_file_id wav_file))]
      in if file_metadata metadata_dict wav_file \<noteq> []
         then dict_update sample (file_metadata metadata_dict wav_file)
         else sample)"

section \<open>Basic facts about the string functions\<close>

lemma startswith_Nil [simp]: "startswith s []"
  by (simp add: startswith_def)

lemma startswith_Cons: "startswith (c # cs) (p # ps) \<longleftrightarrow> c = p \<and> startswith cs ps"
  by (auto simp: startswith_def)

lemma startswith_empty: "\<not> startswith [] (p # ps)"
  by (simp add: startswith_def)

lemma re_sub_del_id:
  "(\<And>c cs. c \<in> set s \<Longrightarrow> m (c # cs) = None) \<Longrightarrow> re_sub_del m s = s"
  by (induction s) simp_all

lemma match_redaction_words_head:
  "c \<noteq> CHR ''/'' \<Longrightarrow> match_redaction_words (c # cs) = None"
  by (simp add: match_redaction_words_def startswith_Cons Let_def)

lemma sub_redaction_words_no_slash:
  "CHR ''/'' \<notin> set s \<Longrightarrow> sub_redaction_words s = s"
  unfolding sub_redaction_words_def
  by (rule re_sub_del_id) (auto intro: match_redaction_words_head)

lemma sub_markup_words_no_slash: "CHR ''/'' \<notin> set (sub_markup_words s)"
  by (auto simp: sub_markup_words_def)

section \<open>Facts about the two loops over a transcript\<close>

lemma text_loop_fails:
  "text_loop (map Line ls @ ReadFails msg # rest) texts = Inl (OSError msg)"
  by (induction ls arbitrary: texts) simp_all

lemma count_loop_fails:
  "count_loop (map Line ls @ ReadFails msg # rest) n =
     (Some (OSError msg), foldl (\<lambda>n l. count_line l n) n ls)"
  by (induction ls arbitrary: n) simp_all

lemma text_loop_skip:
  assumes "\<And>texts. text_line l texts = texts"
  shows "text_loop (before @ Line l # after) texts = text_loop (before @ after) texts"
proof (induction before arbitrary: texts)
  case Nil
  show ?case by (simp add: assms)
next
  case (Cons ev before)
  then show ?case by (cases ev) simp_all
qed

lemma count_loop_skip:
  assumes "\<And>n. count_line l n = n"
  shows "count_loop (before @ Line l # after) n = count_loop (before @ after) n"
proof (induction before arbitrary: n)
  case Nil
  show ?case by (simp add: assms)
next
  case (Cons ev before)
  then show ?case by (cases ev) simp_all
qed

section \<open>Lines that are passed over\<close>

text \<open>
  Claim C7. A transcript line whose content field is empty or begins with \<open>(pause\<close> is
  passed over by both loops: the list of text fragments and the word count are the same
  after the line as before it, and a transcript gives the same text, the same count and
  the same console output with the line as without it.
\<close>

theorem skipped_line_contributes_nothing:
  assumes "line_content line = Some content"
    and "content = [] \<or> startswith content ''(pause''"
  shows "text_line line texts = texts
       \<and> count_line line word_count = word_count
       \<and> extract_text_from_txt p (Opened (Line header # before @ Line line # after))
           = extract_text_from_txt p (Opened (Line header # before @ after))
       \<and> count_words_from_txt p (Opened (Line header # before @ Line line # after))
           = count_words_from_txt p (Opened (Line header # before @ after))"
proof -
  have t: "text_line line ts = ts" for ts
    using assms by (auto simp: text_line_def)
  have c: "count_line line n = n" for n
    using assms by (auto simp: count_line_def)
  have "text_loop (before @ Line line # after) [] = text_loop (before @ after) []"
    by (rule text_loop_skip) (rule t)
  moreover have "count_loop (before @ Line line # after) 0 = count_loop (before @ after) 0"
    by (rule count_loop_skip) (rule c)
  ultimately show ?thesis
    using t c by (simp add: extract_text_from_txt_def count_words_from_txt_def)
qed

theorem skipped_line_contributes_nothing_witness:
  "line_content (''2'' @ [CHR 0x09] @ ''ATL_int_01'' @ [CHR 0x09] @ ''3.2'' @ [CHR 0x09]
       @ ''(pause 0.45)'' @ [CHR 0x09] @ ''3.65'' @ [CHR 0x0A]) = Some ''(pause 0.45)''
   \<and> startswith ''(pause 0.45)'' ''(pause''
   \<and> text_line (''2'' @ [CHR 0x09] @ ''ATL_int_01'' @ [CHR 0x09] @ ''3.2'' @ [CHR 0x09]
       @ ''(pause 0.45)'' @ [CHR 0x09] @ ''3.65'' @ [CHR 0x0A]) [''he said hello'']
       = [''he said hello'']
   \<and> count_line (''2'' @ [CHR 0x09] @ ''ATL_int_01'' @ [CHR 0x09] @ ''3.2'' @ [CHR 0x09]
       @ ''(pause 0.45)'' @ [CHR 0x09] @ ''3.65'' @ [CHR 0x0A]) 3 = 3"
proof -
  have h1: "line_content (''2'' @ [CHR 0x09] @ ''ATL_int_01'' @ [CHR 0x09] @ ''3.2'' @ [CHR 0x09]
       @ ''(pause 0.45)'' @ [CHR 0x09] @ ''3.65'' @ [CHR 0x0A]) = Some ''(pause 0.45)''"
    by code_simp
  have h2: "''(pause 0.45)'' = [] \<or> startswith ''(pause 0.45)'' ''(pause''"
    by (simp add: startswith_def)
  show ?thesis
    using h1 h2
      skipped_line_contributes_nothing [OF h1 h2, of "[''he said hello'']" 3 "[]" "[]" "[]" "[]"]
    by simp
qed

section \<open>A transcript without any line\<close>

text \<open>
  Claim C10. On a transcript file with zero lines the header skip \<open>next(f)\<close> raises
  \<open>StopIteration\<close> inside the \<open>try\<close> block; the handler catches it, so the text
  extractor prints one error line and returns the empty string, and the word counter prints
  one error line and returns zero. A file that holds only its header prints nothing.
\<close>

theorem empty_file_is_reported_as_error:
  "text_try (Opened []) = Inl StopIteration
   \<and> count_try (Opened []) = (Some StopIteration, 0)
   \<and> extract_text_from_txt p (Opened []) = ([], [''Error reading '' @ p @ '': ''])
   \<and> count_words_from_txt p (Opened []) = (0, [''Error reading '' @ p @ '': ''])
   \<and> extract_text_from_txt p (Opened [Line header]) = ([], [])
   \<and> count_words_from_txt p (Opened [Line header]) = (0, [])"
  by (simp add: extract_text_from_txt_def count_words_from_txt_def error_reading_def)

theorem empty_file_is_reported_as_error_witness:
  "extract_text_from_txt ''ATL/ATL_se0_ag1_f_01_1.txt'' (Opened [])
     = ([], [''Error reading ATL/ATL_se0_ag1_f_01_1.txt: ''])
   \<and> count_words_from_txt ''ATL/ATL_se0_ag1_f_01_1.txt'' (Opened [])
     = (0, [''Error reading ATL/ATL_se0_ag1_f_01_1.txt: ''])"
  using empty_file_is_reported_as_error [of "''ATL/ATL_se0_ag1_f_01_1.txt''"]
  by simp

section \<open>A failing read\<close>

lemma io_failure_results:
  "extract_text_from_txt p (OpenFails msg) = ([], [''Error reading '' @ p @ '': '' @ msg])
   \<and> count_words_from_txt p (OpenFails msg) = (0, [''Error reading '' @ p @ '': '' @ msg])
   \<and> extract_text_from_txt p (Opened (map Line ls @ ReadFails msg # rest))
       = ([], [''Error reading '' @ p @ '': '' @ msg])
   \<and> count_words_from_txt p (Opened (map Line ls @ ReadFails msg # rest))
       = (foldl (\<lambda>n l. count_line l n) 0 (tl ls), [''Error reading '' @ p @ '': '' @ msg])"
proof (cases ls)
  case Nil
  then show ?thesis
    by (simp add: extract_text_from_txt_def count_words_from_txt_def error_reading_def)
next
  case (Cons header ls')
  then show ?thesis
    by (simp add: extract_text_from_txt_def count_words_from_txt_def error_reading_def
        text_loop_fails count_loop_fails)
qed

text \<open>
  Claim C4. After an I/O failure both functions catch the exception, print one error line
  and return: \<open>io_failure_results\<close> gives what they return for a failing \<open>open\<close> and
  for a read that fails behind any lines \<open>ls\<close>. The text extractor returns the empty
  string in every case, as claimed. The word counter returns zero only if nothing was
  counted before the failure: its handler prints and leaves through \<open>return word_count\<close>,
  where the handlers of \<open>extract_text_from_txt\<close> and \<open>get_duration_from_textgrid\<close>
  return the empty result themselves. On a transcript with a header, one line of two words
  and then a failing read, the text extractor returns the empty string and the word
  counter returns 2.
\<close>

theorem word_count_after_read_failure:
  "extract_text_from_txt ''ATL/ATL_se0_ag1_f_01_1.txt''
     (Opened [Line (''Line'' @ [CHR 0x09] @ ''Spkr'' @ [CHR 0x09] @ ''StTime''
                 @ [CHR 0x09] @ ''Content'' @ [CHR 0x09] @ ''EnTime'' @ [CHR 0x0A]),
              Line (''1'' @ [CHR 0x09] @ ''ATL_se0_ag1_f_01'' @ [CHR 0x09] @ ''0.5''
                 @ [CHR 0x09] @ ''hello there'' @ [CHR 0x09] @ ''3.2'' @ [CHR 0x0A]),
              ReadFails ''Input/output error''])
     = ([], [''Error reading ATL/ATL_se0_ag1_f_01_1.txt: Input/output error''])
   \<and> count_words_from_txt ''ATL/ATL_se0_ag1_f_01_1.txt''
     (Opened [Line (''Line'' @ [CHR 0x09] @ ''Spkr'' @ [CHR 0x09] @ ''StTime''
                 @ [CHR 0x09] @ ''Content'' @ [CHR 0x09] @ ''EnTime'' @ [CHR 0x0A]),
              Line (''1'' @ [CHR 0x09] @ ''ATL_se0_ag1_f_01'' @ [CHR 0x09] @ ''0.5''
                 @ [CHR 0x09] @ ''hello there'' @ [CHR 0x09] @ ''3.2'' @ [CHR 0x0A]),
              ReadFails ''Input/output error''])
     = (2, [''Error reading ATL/ATL_se0_ag1_f_01_1.txt: Input/output error''])"
  by code_simp

section \<open>The example of the specification\<close>

text \<open>
  Claim C5. For the content
  \<open>[he] <laugh> said /RD-NAME-1/ (breathy) hello\<close> the steps of the text extractor give,
  in this order: the square brackets removed and their content kept; the span
  \<open><laugh>\<close> removed; the redaction \<open>/RD-NAME-1/\<close> removed; the descriptor
  \<open>(breathy)\<close> removed; white space collapsed and trimmed, which leaves
  \<open>he said hello\<close>. A transcript line with that content in its fourth field appends
  exactly this string to the list of texts.
\<close>

theorem clean_text_example:
  "sub_brackets ''[he] <laugh> said /RD-NAME-1/ (breathy) hello''
     = ''he <laugh> said /RD-NAME-1/ (breathy) hello''
   \<and> sub_angle ''he <laugh> said /RD-NAME-1/ (breathy) hello''
     = ''he  said /RD-NAME-1/ (breathy) hello''
   \<and> sub_redaction ''he  said /RD-NAME-1/ (breathy) hello''
     = ''he  said  (breathy) hello''
   \<and> sub_descriptor ''he  said  (breathy) hello'' = ''he  said   hello''
   \<and> join '' '' (split_ws ''he  said   hello'') = ''he said hello''
   \<and> clean_text ''[he] <laugh> said /RD-NAME-1/ (breathy) hello'' = ''he said hello''
   \<and> text_line (''1'' @ [CHR 0x09] @ ''ATL_se0_ag1_f_01'' @ [CHR 0x09] @ ''0.5'' @ [CHR 0x09]
        @ ''[he] <laugh> said /RD-NAME-1/ (breathy) hello'' @ [CHR 0x09] @ ''3.2''
        @ [CHR 0x0A]) [] = [''he said hello'']"
  by code_simp

section \<open>The redaction pattern of the word counter\<close>

text \<open>
  Claim C9. In the word counter the substitution of \<open>/RD-[A-Z]+-\d+/\<close> changes nothing:
  its input is the output of the substitution before it, which holds no \<open>/\<close>. So the
  counted words are the tokens of that output without those that start with \<open>RD-\<close>, and
  for \<open>/RD-NAME-1/\<close> it is this last filter that drops the token \<open>RD-NAME-1\<close>.
\<close>

theorem redaction_substitution_is_identity_in_word_count:
  "sub_redaction_words (sub_markup_words content) = sub_markup_words content
   \<and> count_tokens content
       = filter (\<lambda>w. w \<noteq> [] \<and> \<not> startswith w ''RD-'') (split_ws (sub_markup_words content))
   \<and> split_ws (sub_redaction_words (sub_markup_words ''/RD-NAME-1/'')) = [''RD-NAME-1'']
   \<and> count_tokens ''/RD-NAME-1/'' = []"
proof -
  have id: "sub_redaction_words (sub_markup_words c) = sub_markup_words c" for c
    by (rule sub_redaction_words_no_slash [OF sub_markup_words_no_slash])
  have "split_ws (sub_redaction_words (sub_markup_words ''/RD-NAME-1/'')) = [''RD-NAME-1'']"
    by code_simp
  moreover have "count_tokens ''/RD-NAME-1/'' = []"
    by code_simp
  ultimately show ?thesis
    by (simp add: id count_tokens_def)
qed

theorem redaction_substitution_is_identity_in_word_count_witness:
  "sub_redaction_words (sub_markup_words ''she said /RD-NAME-2/ left'')
     = sub_markup_words ''she said /RD-NAME-2/ left''
   \<and> sub_markup_words ''she said /RD-NAME-2/ left'' = ''she said  RD-NAME-2  left''"
  using redaction_substitution_is_identity_in_word_count [of "''she said /RD-NAME-2/ left''"]
  by (simp add: sub_markup_words_def)

section \<open>Facts about paths and dictionaries\<close>

lemma split_on_ne [simp]: "split_on sep s \<noteq> []"
  by (induction s) (auto split: list.splits)

lemma split_on_absent: "sep \<notin> set s \<Longrightarrow> split_on sep s = [s]"
  by (induction s) auto

lemma split_on_append:
  "split_on sep (xs @ sep # ys) = split_on sep xs @ split_on sep ys"
  by (induction xs) (auto split: list.splits)

lemma rfind_last: "c \<notin> set ys \<Longrightarrow> rfind c (xs @ c # ys) = Some (length xs)"
proof -
  assume a: "c \<notin> set ys"
  have "takeWhile (\<lambda>x. x \<noteq> c) (rev ys @ c # rev xs) = rev ys"
    using a by (subst takeWhile_append2) auto
  then show ?thesis by (simp add: rfind_def)
qed

lemma path_name_file:
  assumes "CHR ''/'' \<notin> set name" "name \<noteq> []" "name \<noteq> ''.''"
  shows "path_name (dir @ ''/'' @ name) = name"
proof -
  have "split_on (CHR ''/'') (dir @ CHR ''/'' # name) = split_on (CHR ''/'') dir @ [name]"
    using assms by (simp add: split_on_append split_on_absent)
  moreover have "(case xs of [] \<Rightarrow> [] | c # cs \<Rightarrow> last (c # cs)) = (if xs = [] then [] else last xs)"
    for xs :: "string list"
    by (cases xs) simp_all
  ultimately show ?thesis
    using assms by (simp add: path_name_def)
qed

lemma path_stem_convention:
  assumes "CHR ''/'' \<notin> set (stem @ ext)" and "CHR ''.'' \<notin> set ext"
    and "ext \<noteq> []" and "stem \<noteq> []"
  shows "path_stem (dir @ ''/'' @ stem @ ''.'' @ ext) = stem"
proof -
  have "stem @ ''.'' @ ext \<noteq> ''.''"
    using assms(4) by (cases stem) auto
  then have n: "path_name (dir @ ''/'' @ stem @ ''.'' @ ext) = stem @ ''.'' @ ext"
    using assms by (intro path_name_file) auto
  have r: "rfind (CHR ''.'') (stem @ ''.'' @ ext) = Some (length stem)"
    using rfind_last [of "CHR ''.''" ext stem] assms by simp
  show ?thesis
    using assms(3,4) n r by (simp add: path_stem_def)
qed

lemma map_of_dict_update_other:
  "map_of other k = None \<Longrightarrow> map_of (dict_update d other) k = map_of d k"
  unfolding dict_update_def
proof (induction other arbitrary: d)
  case Nil
  then show ?case by simp
next
  case (Cons p other)
  obtain k' v' where p: "p = (k', v')" by (cases p)
  with Cons.prems have "k' \<noteq> k" "map_of other k = None" by (auto split: if_splits)
  with Cons.IH [of "AList.update k' v' d"] p show ?case
    by (simp add: update_conv')
qed

text \<open>
  Claim C1, as the specification states it: the file identifier of a sample is the stem
  of the file name without its trailing \<open>_<session>\<close>. For
  \<open>ATL_se0_ag1_f_01_1.wav\<close> the identifier used for the lookup and the \<open>file_id\<close>
  field of the sample are not \<open>ATL_se0_ag1_f_01\<close>.
\<close>

theorem file_id_counterexample:
  "full_file_id ''ATL/ATL_se0_ag1_f_01_1.wav'' \<noteq> ''ATL_se0_ag1_f_01''
   \<and> map_of (make_sample ''ATL/ATL_se0_ag1_f_01_1.wav'' ''he said hello'' [])
        (Some ''file_id'') \<noteq> Some (Str ''ATL_se0_ag1_f_01'')"
  by code_simp

text \<open>
  Claim C1, amended. For an audio file named \<open><base>_<session>.<ext>\<close> in a
  directory, the upload pipeline uses the whole stem \<open><base>_<session>\<close>, session
  suffix included: it is the key of the metadata lookup, and it is the \<open>file_id\<close> field
  of the sample unless the metadata row found has a column of that name. The stem without
  the session suffix is what \<open>parse_filename\<close> returns, a function the pipeline does not
  call.
\<close>

theorem file_id_is_full_stem:
  assumes "CHR ''/'' \<notin> set (base @ session @ ext)"
    and "CHR ''_'' \<notin> set session"
    and "CHR ''.'' \<notin> set ext"
    and "ext \<noteq> []"
  shows "full_file_id (dir @ ''/'' @ base @ ''_'' @ session @ ''.'' @ ext) = base @ ''_'' @ session
    \<and> file_metadata md (dir @ ''/'' @ base @ ''_'' @ session @ ''.'' @ ext)
        = (case map_of md (base @ ''_'' @ session) of None \<Rightarrow> [] | Some r \<Rightarrow> r)
    \<and> (map_of (file_metadata md (dir @ ''/'' @ base @ ''_'' @ session @ ''.'' @ ext))
          (Some ''file_id'') = None
       \<longrightarrow> map_of (make_sample (dir @ ''/'' @ base @ ''_'' @ session @ ''.'' @ ext) text md)
          (Some ''file_id'') = Some (Str (base @ ''_'' @ session)))
    \<and> parse_filename (dir @ ''/'' @ base @ ''_'' @ session @ ''.'' @ ext) = base"
proof -
  let ?wav = "dir @ ''/'' @ base @ ''_'' @ session @ ''.'' @ ext"
  let ?stem = "base @ ''_'' @ session"
  have "path_stem (dir @ ''/'' @ ?stem @ ''.'' @ ext) = ?stem"
    using assms by (intro path_stem_convention) auto
  then have stem: "path_stem ?wav = ?stem" by simp
  then have id: "full_file_id ?wav = ?stem"
    by (simp add: full_file_id_def)
  have "rfind (CHR ''_'') ?stem = Some (length base)"
    using rfind_last [of "CHR ''_''" session base] assms by simp
  then have pf: "parse_filename ?wav = base"
    using stem by (simp add: parse_filename_def rsplit1_def)
  have fm: "file_metadata md ?wav = (case map_of md ?stem of None \<Rightarrow> [] | Some r \<Rightarrow> r)"
    using id by (simp add: file_metadata_def)
  have ms: "map_of (make_sample ?wav text md) (Some ''file_id'') = Some (Str ?stem)"
    if "map_of (file_metadata md ?wav) (Some ''file_id'') = None"
    using that id by (simp add: make_sample_def Let_def map_of_dict_update_other)
  show ?thesis using id fm ms pf by blast
qed

theorem file_id_is_full_stem_witness:
  "full_file_id ''ATL/ATL_se0_ag1_f_01_1.wav'' = ''ATL_se0_ag1_f_01_1''
   \<and> parse_filename ''ATL/ATL_se0_ag1_f_01_1.wav'' = ''ATL_se0_ag1_f_01''
   \<and> map_of (make_sample ''ATL/ATL_se0_ag1_f_01_1.wav'' ''he said hello'' [])
        (Some ''file_id'') = Some (Str ''ATL_se0_ag1_f_01_1'')"
proof -
  have h1: "CHR ''/'' \<notin> set (''ATL_se0_ag1_f_01'' @ ''1'' @ ''wav'')" by simp
  have h2: "CHR ''_'' \<notin> set ''1''" by simp
  have h3: "CHR ''.'' \<notin> set ''wav''" by simp
  have h4: "''wav'' \<noteq> []" by simp
  have h5: "map_of (file_metadata [] ''ATL/ATL_se0_ag1_f_01_1.wav'') (Some ''file_id'') = None"
    by (simp add: file_metadata_def)
  show ?thesis
    using file_id_is_full_stem [OF h1 h2 h3 h4, of "''ATL''" "[]" "''he said hello''"] h5
    by simp
qed

section \<open>The metadata table of the specification\<close>

lemma example_table:
  "load_metadata
     [Opened [Line (''CORAAL.File'' @ [CHR 0x09] @ ''Age'' @ [CHR 0x09] @ ''Gender'' @ [CHR 0x0A]),
              Line (''ATL_se0_ag1_f_01'' @ [CHR 0x09] @ ''19'' @ [CHR 0x09] @ ''f'' @ [CHR 0x0A])]]
   = [(''ATL_se0_ag1_f_01'',
       [(Some ''CORAAL.File'', Str ''ATL_se0_ag1_f_01''), (Some ''Age'', Str ''19''),
        (Some ''Gender'', Str ''f'')])]"
  by code_simp

lemma metadata_step_skip:
  "map_of r (Some ''CORAAL.File'') \<in> {None, Some NoneVal, Some (Str [])}
   \<Longrightarrow> metadata_step md r = md"
  by (auto simp: metadata_step_def)

text \<open>
  Claim C3, as the specification states it: for the table with the header
  \<open>CORAAL.File, Age, Gender\<close> and the row \<open>ATL_se0_ag1_f_01, 19, f\<close>, looking up
  \<open>ATL_se0_ag1_f_01\<close> returns exactly \<open>{'Age': '19', 'Gender': 'f'}\<close>. It does not:
  the dictionary stored under the identifier is the whole row, so it has three entries.
\<close>

theorem metadata_lookup_counterexample:
  "map_of (load_metadata
     [Opened [Line (''CORAAL.File'' @ [CHR 0x09] @ ''Age'' @ [CHR 0x09] @ ''Gender'' @ [CHR 0x0A]),
              Line (''ATL_se0_ag1_f_01'' @ [CHR 0x09] @ ''19'' @ [CHR 0x09] @ ''f'' @ [CHR 0x0A])]])
     ''ATL_se0_ag1_f_01''
   \<noteq> Some [(Some ''Age'', Str ''19''), (Some ''Gender'', Str ''f'')]"
  by code_simp

text \<open>
  Claim C3, amended. For that table, looking up \<open>ATL_se0_ag1_f_01\<close> returns the whole
  row \<open>{'CORAAL.File': 'ATL_se0_ag1_f_01', 'Age': '19', 'Gender': 'f'}\<close>; any other
  identifier has no entry; and a row whose \<open>CORAAL.File\<close> value is missing, \<open>None\<close> or
  the empty string leaves the mapping as it is, wherever it stands among the rows.
\<close>

theorem metadata_lookup_example:
  "map_of (load_metadata
     [Opened [Line (''CORAAL.File'' @ [CHR 0x09] @ ''Age'' @ [CHR 0x09] @ ''Gender'' @ [CHR 0x0A]),
              Line (''ATL_se0_ag1_f_01'' @ [CHR 0x09] @ ''19'' @ [CHR 0x09] @ ''f'' @ [CHR 0x0A])]])
     ''ATL_se0_ag1_f_01''
   = Some [(Some ''CORAAL.File'', Str ''ATL_se0_ag1_f_01''), (Some ''Age'', Str ''19''),
        (Some ''Gender'', Str ''f'')]
  \<and> (k \<noteq> ''ATL_se0_ag1_f_01'' \<longrightarrow>
     map_of (load_metadata
     [Opened [Line (''CORAAL.File'' @ [CHR 0x09] @ ''Age'' @ [CHR 0x09] @ ''Gender'' @ [CHR 0x0A]),
              Line (''ATL_se0_ag1_f_01'' @ [CHR 0x09] @ ''19'' @ [CHR 0x09] @ ''f'' @ [CHR 0x0A])]])
     k = None)
  \<and> (map_of r (Some ''CORAAL.File'') \<in> {None, Some NoneVal, Some (Str [])} \<longrightarrow>
       metadata_step md r = md
       \<and> foldl metadata_step md (rows @ r # rows') = foldl metadata_step md (rows @ rows'))"
  by (simp only: example_table) (auto simp: metadata_step_skip)

theorem metadata_lookup_example_witness:
  "map_of (load_metadata
     [Opened [Line (''CORAAL.File'' @ [CHR 0x09] @ ''Age'' @ [CHR 0x09] @ ''Gender'' @ [CHR 0x0A]),
              Line (''ATL_se0_ag1_f_01'' @ [CHR 0x09] @ ''19'' @ [CHR 0x09] @ ''f'' @ [CHR 0x0A])]])
     ''ATL_se0_ag1_f_01_1'' = None
   \<and> map_of (dict_row [''CORAAL.File'', ''Age'', ''Gender''] ['''', ''20'', ''m''])
        (Some ''CORAAL.File'') = Some (Str [])
   \<and> metadata_step [] (dict_row [''CORAAL.File'', ''Age'', ''Gender''] ['''', ''20'', ''m'']) = []"
proof -
  have h1: "''ATL_se0_ag1_f_01_1'' \<noteq> ''ATL_se0_ag1_f_01''" by simp
  have h2: "map_of (dict_row [''CORAAL.File'', ''Age'', ''Gender''] ['''', ''20'', ''m''])
        (Some ''CORAAL.File'') = Some (Str [])"
    by code_simp
  show ?thesis
    using h1 h2
      metadata_lookup_example [of "''ATL_se0_ag1_f_01_1''"
        "dict_row [''CORAAL.File'', ''Age'', ''Gender''] ['''', ''20'', ''m'']" "[]" "[]" "[]"]
    by simp
qed

section \<open>The duration of an alignment grid\<close>

lemma numeric_not_space: "isdigit c \<or> c = CHR ''.'' \<Longrightarrow> \<not> isspace c"
  by (auto simp: isdigit_def isspace_def)

lemma match_xmax_space: "isspace c \<Longrightarrow> match_xmax (c # cs) = None"
  by (auto simp: match_xmax_def startswith_Cons isspace_def Let_def)

lemma search_xmax_leading_space:
  "list_all isspace ws \<Longrightarrow> search_xmax (ws @ s) = search_xmax s"
  by (induction ws) (simp_all add: match_xmax_space)

lemma dropWhile_all: "list_all P xs \<Longrightarrow> (ys = [] \<or> \<not> P (hd ys)) \<Longrightarrow> dropWhile P (xs @ ys) = ys"
  by (induction xs) (cases ys; auto)+

lemma takeWhile_all: "list_all P xs \<Longrightarrow> (ys = [] \<or> \<not> P (hd ys)) \<Longrightarrow> takeWhile P (xs @ ys) = xs"
  by (induction xs) (cases ys; auto)+

lemma match_xmax_number:
  assumes "list_all isspace ws2" and "g \<noteq> []"
    and "list_all (\<lambda>c. isdigit c \<or> c = CHR ''.'') g"
    and "rest = [] \<or> \<not> (isdigit (hd rest) \<or> hd rest = CHR ''.'')"
  shows "match_xmax (''xmax ='' @ ws2 @ g @ rest) = Some g"
proof -
  have hd: "\<not> isspace (hd (g @ rest))"
    using assms(2,3) numeric_not_space [of "hd g"] by (cases g) auto
  have 1: "dropWhile isspace (ws2 @ g @ rest) = g @ rest"
    using assms(1,2) hd by (intro dropWhile_all) auto
  have 2: "takeWhile (\<lambda>c. isdigit c \<or> c = CHR ''.'') (g @ rest) = g"
    using assms(3,4) by (intro takeWhile_all) auto
  have 3: "dropWhile isspace ('' ='' @ ws2 @ g @ rest) = ''='' @ ws2 @ g @ rest"
    by (simp add: isspace_def)
  show ?thesis
    using 1 2 3 assms(2) by (simp add: match_xmax_def startswith_def Let_def)
qed

lemma search_xmax_number:
  assumes "list_all isspace ws" and "list_all isspace ws2" and "g \<noteq> []"
    and "list_all (\<lambda>c. isdigit c \<or> c = CHR ''.'') g"
    and "rest = [] \<or> \<not> (isdigit (hd rest) \<or> hd rest = CHR ''.'')"
  shows "search_xmax (ws @ ''xmax ='' @ ws2 @ g @ rest) = Some g"
proof -
  have "search_xmax (''xmax ='' @ ws2 @ g @ rest) = Some g"
    using match_xmax_number [OF assms(2-5)] by simp
  then show ?thesis
    using search_xmax_leading_space [OF assms(1)] by simp
qed

lemma strip_keeps_prefix:
  assumes "list_all isspace ws" and "\<not> isspace a" and "\<not> isspace b"
  shows "startswith (strip (ws @ a # p @ b # t)) (a # p @ [b])"
proof -
  have 1: "dropWhile isspace (ws @ a # p @ b # t) = a # p @ b # t"
    using assms by (intro dropWhile_all) auto
  have "dropWhile isspace (rev t @ (b # rev p @ [a])) = dropWhile isspace (rev t) @ (b # rev p @ [a])"
    using assms(3) by (induction "rev t" arbitrary: t) (auto simp: dropWhile_append)
  then have "strip (ws @ a # p @ b # t) = a # p @ b # rev (dropWhile isspace (rev t))"
    using 1 by (simp add: strip_def)
  then show ?thesis by (simp add: startswith_def)
qed

lemma strip_xmax:
  "list_all isspace ws \<Longrightarrow> startswith (strip (ws @ ''xmax ='' @ t)) ''xmax =''"
  using strip_keeps_prefix [of ws "CHR ''x''" "CHR ''=''" "''max ''" t]
  by (simp add: isspace_def)

lemma duration_loop_skip:
  "list_all (\<lambda>l. \<not> startswith (strip l) ''xmax ='') ls
   \<Longrightarrow> duration_loop to_float (map Line ls @ evs) = duration_loop to_float evs"
  by (induction ls) simp_all

text \<open>
  Claim C6. Let no line before the one in question have a trimmed form that begins with
  \<open>xmax =\<close>. If that line consists of white space, \<open>xmax =\<close>, white space, a run
  \<open>g\<close> of digits and dots that ends there, and anything behind it, the duration
  extractor returns \<open>float(g)\<close> and prints nothing; for the line
  \<open>xmax = 125.430000 \<close> this is \<open>float('125.430000')\<close>, the number 125.43. If no
  line begins with \<open>xmax =\<close> it returns \<open>0.0\<close> and prints nothing. If the file cannot
  be opened, or a read fails, it returns \<open>0.0\<close>, prints one error line and does not
  raise.
\<close>

theorem duration_is_first_xmax:
  assumes "list_all (\<lambda>l. \<not> startswith (strip l) ''xmax ='') ls"
  shows "(list_all isspace ws \<and> list_all isspace ws2 \<and> g \<noteq> []
          \<and> list_all (\<lambda>c. isdigit c \<or> c = CHR ''.'') g
          \<and> (rest = [] \<or> \<not> (isdigit (hd rest) \<or> hd rest = CHR ''.''))
          \<and> to_float g = Some v
        \<longrightarrow> startswith (strip (ws @ ''xmax ='' @ ws2 @ g @ rest)) ''xmax =''
          \<and> get_duration_from_textgrid to_float p
               (Opened (map Line ls @ Line (ws @ ''xmax ='' @ ws2 @ g @ rest) # after))
             = (v, []))
    \<and> (to_float ''125.430000'' = Some v
        \<longrightarrow> get_duration_from_textgrid to_float p
               (Opened (map Line ls @ Line (''xmax = 125.430000 '' @ [CHR 0x0A]) # after))
             = (v, []))
    \<and> get_duration_from_textgrid to_float p (Opened (map Line ls)) = (0, [])
    \<and> get_duration_from_textgrid to_float p (OpenFails msg)
        = (0, [''Error reading '' @ p @ '': '' @ msg])
    \<and> get_duration_from_textgrid to_float p (Opened (map Line ls @ ReadFails msg # after))
        = (0, [''Error reading '' @ p @ '': '' @ msg])"
proof -
  have found: "get_duration_from_textgrid to_float p
       (Opened (map Line ls @ Line (ws @ ''xmax ='' @ ws2 @ g @ rest) # after)) = (v, [])"
    if "list_all isspace ws" "list_all isspace ws2" "g \<noteq> []"
       "list_all (\<lambda>c. isdigit c \<or> c = CHR ''.'') g"
       "rest = [] \<or> \<not> (isdigit (hd rest) \<or> hd rest = CHR ''.'')"
       "to_float g = Some v"
    for ws ws2 g rest
  proof -
    define l where "l = ws @ ''xmax ='' @ ws2 @ g @ rest"
    have 1: "search_xmax l = Some g"
      unfolding l_def using that by (intro search_xmax_number) auto
    have 2: "startswith (strip l) ''xmax =''"
      unfolding l_def using that(1) by (rule strip_xmax)
    have "duration_loop to_float (Line l # after) = Inr (Some v)"
      by (simp add: 1 2 that(6))
    then have "duration_loop to_float (map Line ls @ Line l # after) = Inr (Some v)"
      by (simp only: duration_loop_skip [OF assms])
    then have "get_duration_from_textgrid to_float p (Opened (map Line ls @ Line l # after))
        = (v, [])"
      by (simp add: get_duration_from_textgrid_def)
    then show ?thesis
      unfolding l_def .
  qed
  have example: "get_duration_from_textgrid to_float p
       (Opened (map Line ls @ Line (''xmax = 125.430000 '' @ [CHR 0x0A]) # after)) = (v, [])"
    if "to_float ''125.430000'' = Some v"
    using found [of "[]" "'' ''" "''125.430000''" "'' '' @ [CHR 0x0A]"] that
    by (simp add: isspace_def isdigit_def)
  have none: "get_duration_from_textgrid to_float p (Opened (map Line ls)) = (0, [])"
    using duration_loop_skip [OF assms, of to_float "[]"]
    by (simp add: get_duration_from_textgrid_def)
  have fails: "get_duration_from_textgrid to_float p (Opened (map Line ls @ ReadFails msg # after))
        = (0, [''Error reading '' @ p @ '': '' @ msg])"
    using duration_loop_skip [OF assms, of to_float "ReadFails msg # after"]
    by (simp add: get_duration_from_textgrid_def error_reading_def)
  have "get_duration_from_textgrid to_float p (OpenFails msg)
        = (0, [''Error reading '' @ p @ '': '' @ msg])"
    by (simp add: get_duration_from_textgrid_def error_reading_def)
  then show ?thesis
    using found strip_xmax example none fails by blast
qed

theorem duration_is_first_xmax_witness:
  "list_all (\<lambda>l. \<not> startswith (strip l) ''xmax ='') [''Object class = TextGrid'' @ [CHR 0x0A], ''xmin = 0 '' @ [CHR 0x0A]]
   \<and> get_duration_from_textgrid (\<lambda>s. if s = ''125.430000'' then Some (125.43 :: real) else None)
        ''ATL/ATL_se0_ag1_f_01_1.TextGrid''
        (Opened (map Line [''Object class = TextGrid'' @ [CHR 0x0A], ''xmin = 0 '' @ [CHR 0x0A]]
                 @ Line (''xmax = 125.430000 '' @ [CHR 0x0A]) # [Line (''tiers? <exists> '' @ [CHR 0x0A])]))
      = (125.43, [])
   \<and> get_duration_from_textgrid (\<lambda>s. if s = ''125.430000'' then Some (125.43 :: real) else None)
        ''ATL/ATL_se0_ag1_f_01_1.TextGrid''
        (Opened (map Line [''Object class = TextGrid'' @ [CHR 0x0A], ''xmin = 0 '' @ [CHR 0x0A]]))
      = (0, [])"
proof -
  have h: "list_all (\<lambda>l. \<not> startswith (strip l) ''xmax ='') [''Object class = TextGrid'' @ [CHR 0x0A], ''xmin = 0 '' @ [CHR 0x0A]]"
    by (simp add: startswith_def strip_def isspace_def)
  show ?thesis
    using h duration_is_first_xmax [OF h, of "[]" "[]" "[]" "[]" "\<lambda>s. if s = ''125.430000'' then Some (125.43 :: real) else None"
        "125.43" "''ATL/ATL_se0_ag1_f_01_1.TextGrid''" "[Line (''tiers? <exists> '' @ [CHR 0x0A])]" "[]"]
    by simp
qed

section \<open>White space normalisation\<close>

lemma split_ws_Nil [simp]: "split_ws [] = []"
  by (simp add: split_ws.simps)

lemma split_ws_space: "isspace c \<Longrightarrow> split_ws (c # s) = split_ws s"
  by (subst split_ws.simps, subst (2) split_ws.simps) simp

lemma split_ws_leading: "list_all isspace ws \<Longrightarrow> split_ws (ws @ s) = split_ws s"
  by (induction ws) (simp_all add: split_ws_space)

lemma split_ws_token:
  assumes "w \<noteq> []" and "list_all (\<lambda>c. \<not> isspace c) w" and "r = [] \<or> isspace (hd r)"
  shows "split_ws (w @ r) = w # split_ws r"
proof -
  have 1: "dropWhile isspace (w @ r) = w @ r"
    using assms(1,2) by (cases w) auto
  have 2: "takeWhile (\<lambda>c. \<not> isspace c) (w @ r) = w"
    using assms(2,3) by (intro takeWhile_all) auto
  have 3: "dropWhile (\<lambda>c. \<not> isspace c) (w @ r) = r"
    using assms(2,3) by (intro dropWhile_all) auto
  show ?thesis
    using assms(1) by (subst split_ws.simps) (simp add: 1 2 3 Let_def)
qed

lemma list_all_takeWhile: "list_all P (takeWhile P xs)"
  by (induction xs) simp_all

lemma split_ws_tokens: "list_all (\<lambda>w. w \<noteq> [] \<and> list_all (\<lambda>c. \<not> isspace c) w) (split_ws s)"
proof (induction s rule: split_ws.induct)
  case (1 s)
  show ?case
  proof (cases "dropWhile isspace s = []")
    case True
    then show ?thesis by (subst split_ws.simps) simp
  next
    case False
    then have "\<not> isspace (hd (dropWhile isspace s))"
      using hd_dropWhile by blast
    then have "takeWhile (\<lambda>c. \<not> isspace c) (dropWhile isspace s) \<noteq> []"
      using False by (cases "dropWhile isspace s") auto
    moreover have "list_all (\<lambda>c. \<not> isspace c) (takeWhile (\<lambda>c. \<not> isspace c) (dropWhile isspace s))"
      by (rule list_all_takeWhile)
    ultimately show ?thesis
      using False 1 by (subst split_ws.simps) (simp add: Let_def)
  qed
qed

lemma split_ws_join:
  "list_all (\<lambda>w. w \<noteq> [] \<and> list_all (\<lambda>c. \<not> isspace c) w) ws \<Longrightarrow> split_ws (join '' '' ws) = ws"
proof (induction "'' ''" ws rule: join.induct)
  case 1
  then show ?case by simp
next
  case (2 x)
  then show ?case using split_ws_token [of x "[]"] by simp
next
  case (3 x y ys)
  have "split_ws (x @ '' '' @ join '' '' (y # ys)) = x # split_ws ('' '' @ join '' '' (y # ys))"
    using 3 by (intro split_ws_token) (auto simp: isspace_def)
  also have "split_ws ('' '' @ join '' '' (y # ys)) = split_ws (join '' '' (y # ys))"
    by (simp add: split_ws_space isspace_def)
  finally show ?case using 3 by simp
qed

lemma split_ws_normalised: "split_ws (join '' '' (split_ws s)) = split_ws s"
  by (rule split_ws_join) (rule split_ws_tokens)

lemma join_eq_Nil: "list_all (\<lambda>w. w \<noteq> []) ws \<Longrightarrow> join sep ws = [] \<longleftrightarrow> ws = []"
  by (induction sep ws rule: join.induct) auto

section \<open>Text mode against word-count mode\<close>

lemma sub_brackets_id: "CHR ''['' \<notin> set s \<Longrightarrow> CHR '']'' \<notin> set s \<Longrightarrow> sub_brackets s = s"
  unfolding sub_brackets_def by (induction s) auto

lemma match_angle_head: "c \<noteq> CHR ''<'' \<Longrightarrow> match_angle (c # cs) = None"
  by simp

lemma match_redaction_head: "c \<noteq> CHR ''/'' \<Longrightarrow> match_redaction (c # cs) = None"
  by (simp add: match_redaction_def startswith_Cons Let_def)

lemma match_descriptor_head: "c \<noteq> CHR ''('' \<Longrightarrow> match_descriptor (c # cs) = None"
  by simp

lemma sub_angle_id: "CHR ''<'' \<notin> set s \<Longrightarrow> sub_angle s = s"
  unfolding sub_angle_def by (rule re_sub_del_id) (auto intro: match_angle_head)

lemma sub_redaction_id: "CHR ''/'' \<notin> set s \<Longrightarrow> sub_redaction s = s"
  unfolding sub_redaction_def by (rule re_sub_del_id) (auto intro: match_redaction_head)

lemma sub_descriptor_id: "CHR ''('' \<notin> set s \<Longrightarrow> sub_descriptor s = s"
  unfolding sub_descriptor_def by (rule re_sub_del_id) (auto intro: match_descriptor_head)

lemma sub_markup_words_id:
  "list_all (\<lambda>c. c \<notin> set ''<[]/'') s \<Longrightarrow> sub_markup_words s = s"
  unfolding sub_markup_words_def by (induction s) auto

text \<open>
  Claim C2, as the specification states it: for every line with at least four fields the
  word count of the line is the number of tokens of the cleaned text of the line. It is
  not: for the content \<open><laugh>\<close> the word counter turns \<open><\<close> into a space and
  counts the token \<open>laugh>\<close>, while the text extractor removes the span and gives no
  text.
\<close>

theorem modes_disagree_counterexample:
  "count_line (''1'' @ [CHR 0x09] @ ''ATL_se0_ag1_f_01'' @ [CHR 0x09] @ ''0.5'' @ [CHR 0x09]
        @ ''<laugh>'' @ [CHR 0x09] @ ''3.2'' @ [CHR 0x0A]) 0
   \<noteq> length (split_ws (join '' '' (text_line (''1'' @ [CHR 0x09] @ ''ATL_se0_ag1_f_01'' @ [CHR 0x09] @ ''0.5'' @ [CHR 0x09]
        @ ''<laugh>'' @ [CHR 0x09] @ ''3.2'' @ [CHR 0x0A]) [])))"
  by code_simp

text \<open>
  Claim C2, amended. For every line with at least four fields whose content holds none of
  the characters \<open><\<close>, \<open>[\<close>, \<open>]\<close>, \<open>/\<close>, \<open>(\<close> and no token that starts with
  \<open>RD-\<close>, both modes reduce to splitting the content at white space: the cleaned text is
  the tokens joined by single spaces, the counted words are the tokens, and the word count
  of the line is the number of tokens of the cleaned text.
\<close>

theorem modes_agree_without_markup:
  assumes "line_content line = Some content"
    and "list_all (\<lambda>c. c \<notin> set ''<[]/('') content"
    and "list_all (\<lambda>w. \<not> startswith w ''RD-'') (split_ws content)"
  shows "clean_text content = join '' '' (split_ws content)
    \<and> count_tokens content = split_ws content
    \<and> count_line line 0 = length (split_ws (join '' '' (text_line line [])))"
proof -
  have chars: "CHR ''<'' \<notin> set content" "CHR ''['' \<notin> set content" "CHR '']'' \<notin> set content"
    "CHR ''/'' \<notin> set content" "CHR ''('' \<notin> set content"
    using assms(2) by (auto simp: list_all_iff)
  have clean: "clean_text content = join '' '' (split_ws content)"
    using chars
    by (simp add: clean_text_def sub_brackets_id sub_angle_id sub_redaction_id sub_descriptor_id)
  have "list_all (\<lambda>c. c \<notin> set ''<[]/'') content"
    using assms(2) by (auto simp: list_all_iff)
  then have "count_tokens content
      = filter (\<lambda>w. w \<noteq> [] \<and> \<not> startswith w ''RD-'') (split_ws content)"
    using chars(4) by (simp add: count_tokens_def sub_markup_words_id sub_redaction_words_no_slash)
  also have "\<dots> = split_ws content"
    using assms(3) split_ws_tokens [of content] by (auto simp: list_all_iff filter_id_conv)
  finally have toks: "count_tokens content = split_ws content" .
  have nopause: "\<not> startswith content ''(pause''"
    using chars(5) by (cases content) (auto simp: startswith_def)
  have "count_line line 0 = length (split_ws (join '' '' (text_line line [])))"
  proof (cases "content = []")
    case True
    then show ?thesis using assms(1) by (simp add: count_line_def text_line_def)
  next
    case False
    show ?thesis
    proof (cases "split_ws content = []")
      case True
      then show ?thesis
        using assms(1) False nopause clean toks by (simp add: count_line_def text_line_def)
    next
      case ne: False
      have "list_all (\<lambda>w. w \<noteq> []) (split_ws content)"
        using split_ws_tokens [of content] by (auto simp: list_all_iff)
      then have "join '' '' (split_ws content) \<noteq> []"
        using ne by (simp add: join_eq_Nil)
      then show ?thesis
        using assms(1) False nopause clean toks
        by (simp add: count_line_def text_line_def split_ws_normalised)
    qed
  qed
  then show ?thesis using clean toks by simp
qed

theorem modes_agree_without_markup_witness:
  "line_content (''1'' @ [CHR 0x09] @ ''ATL_se0_ag1_f_01'' @ [CHR 0x09] @ ''0.5'' @ [CHR 0x09]
        @ ''he  said hello'' @ [CHR 0x09] @ ''3.2'' @ [CHR 0x0A]) = Some ''he  said hello''
   \<and> clean_text ''he  said hello'' = ''he said hello''
   \<and> count_tokens ''he  said hello'' = [''he'', ''said'', ''hello'']
   \<and> count_line (''1'' @ [CHR 0x09] @ ''ATL_se0_ag1_f_01'' @ [CHR 0x09] @ ''0.5'' @ [CHR 0x09]
        @ ''he  said hello'' @ [CHR 0x09] @ ''3.2'' @ [CHR 0x0A]) 0 = 3"
proof -
  have h1: "line_content (''1'' @ [CHR 0x09] @ ''ATL_se0_ag1_f_01'' @ [CHR 0x09] @ ''0.5''
        @ [CHR 0x09] @ ''he  said hello'' @ [CHR 0x09] @ ''3.2'' @ [CHR 0x0A])
      = Some ''he  said hello''"
    by code_simp
  have h2: "list_all (\<lambda>c. c \<notin> set ''<[]/('') ''he  said hello''"
    by simp
  have sp: "split_ws ''he  said hello'' = [''he'', ''said'', ''hello'']"
    by code_simp
  have h3: "list_all (\<lambda>w. \<not> startswith w ''RD-'') (split_ws ''he  said hello'')"
    by (simp add: sp startswith_def)
  have tl: "text_line (''1'' @ [CHR 0x09] @ ''ATL_se0_ag1_f_01'' @ [CHR 0x09] @ ''0.5''
        @ [CHR 0x09] @ ''he  said hello'' @ [CHR 0x09] @ ''3.2'' @ [CHR 0x0A]) []
      = [''he said hello'']"
    by code_simp
  have sp2: "split_ws ''he said hello'' = [''he'', ''said'', ''hello'']"
    by code_simp
  show ?thesis
    using modes_agree_without_markup [OF h1 h2 h3] h1 sp tl sp2
    by simp
qed

section \<open>Strings that a substitution leaves alone\<close>

lemma re_sub_del_length: "length (re_sub_del m s) \<le> length s"
proof (induction m s rule: re_sub_del.induct)
  case (1 m)
  then show ?case by simp
next
  case (2 m c cs)
  then show ?case by (auto split: option.splits)
qed

lemma re_sub_del_fixed_head:
  assumes "re_sub_del m (c # cs) = c # cs"
    and "\<And>r. m (c # cs) = Some r \<Longrightarrow> length r \<le> length cs"
  shows "m (c # cs) = None \<and> re_sub_del m cs = cs"
proof (cases "m (c # cs)")
  case None
  then show ?thesis using assms(1) by simp
next
  case (Some r)
  then have "re_sub_del m (c # cs) = re_sub_del m r"
    using assms(2) by simp
  then have "length (c # cs) \<le> length r"
    using assms(1) re_sub_del_length [of m r] by simp
  then show ?thesis using assms(2) Some by fastforce
qed

lemma re_sub_del_fixed_suffix:
  assumes "\<And>c cs r. m (c # cs) = Some r \<Longrightarrow> length r \<le> length cs"
  shows "re_sub_del m s = s \<Longrightarrow> suffix t s \<Longrightarrow> t \<noteq> [] \<Longrightarrow> m t = None"
proof (induction s)
  case Nil
  then show ?case by simp
next
  case (Cons c cs)
  have h: "m (c # cs) = None \<and> re_sub_del m cs = cs"
    using Cons.prems(1) assms by (rule re_sub_del_fixed_head)
  show ?case
  proof (cases "t = c # cs")
    case True
    then show ?thesis using h by simp
  next
    case False
    then have "suffix t cs" using Cons.prems(2) by (simp add: suffix_Cons)
    then show ?thesis using Cons.IH h Cons.prems(3) by simp
  qed
qed

lemma re_sub_del_no_suffix:
  "(\<And>t. suffix t s \<Longrightarrow> t \<noteq> [] \<Longrightarrow> m t = None) \<Longrightarrow> re_sub_del m s = s"
proof (induction s)
  case Nil
  then show ?case by simp
next
  case (Cons c cs)
  have "m (c # cs) = None" using Cons.prems by simp
  moreover have "re_sub_del m cs = cs"
    using Cons.prems by (intro Cons.IH) (simp add: suffix_Cons)
  ultimately show ?case by simp
qed

lemma join_Cons: "join sep (x # ys) = x @ (if ys = [] then [] else sep @ join sep ys)"
  by (cases ys) simp_all

lemma set_join: "set (join sep ws) \<subseteq> set sep \<union> \<Union> (set ` set ws)"
  by (induction sep ws rule: join.induct) auto

lemma split_ws_blank: "dropWhile isspace s = [] \<Longrightarrow> split_ws s = []"
  by (subst split_ws.simps) simp

lemma split_ws_unfold:
  "dropWhile isspace s \<noteq> [] \<Longrightarrow>
   split_ws s = takeWhile (\<lambda>c. \<not> isspace c) (dropWhile isspace s)
                # split_ws (dropWhile (\<lambda>c. \<not> isspace c) (dropWhile isspace s))"
  by (subst split_ws.simps) (simp add: Let_def)

lemma set_split_ws: "w \<in> set (split_ws s) \<Longrightarrow> set w \<subseteq> set s"
proof (induction s arbitrary: w rule: split_ws.induct)
  case (1 s)
  let ?t = "dropWhile isspace s"
  from "1.prems" have ne: "?t \<noteq> []"
    using split_ws_blank [of s] by fastforce
  from "1.prems" have "w = takeWhile (\<lambda>c. \<not> isspace c) ?t
      \<or> w \<in> set (split_ws (dropWhile (\<lambda>c. \<not> isspace c) ?t))"
    by (simp add: split_ws_unfold [OF ne])
  then show ?case
  proof
    assume "w = takeWhile (\<lambda>c. \<not> isspace c) ?t"
    then show ?thesis
      using set_takeWhileD [of _ "\<lambda>c. \<not> isspace c" ?t] set_dropWhileD [of _ isspace s] by blast
  next
    assume "w \<in> set (split_ws (dropWhile (\<lambda>c. \<not> isspace c) ?t))"
    then have "set w \<subseteq> set (dropWhile (\<lambda>c. \<not> isspace c) ?t)"
      using "1.IH" ne by simp
    then show ?thesis
      using set_dropWhileD [of _ "\<lambda>c. \<not> isspace c" ?t] set_dropWhileD [of _ isspace s] by blast
  qed
qed

lemma set_normalised: "set (join '' '' (split_ws s)) \<subseteq> insert (CHR '' '') (set s)"
  using set_join [of "'' ''" "split_ws s"] set_split_ws [of _ s] by auto

section \<open>Where a normalised string can match\<close>

lemma normalised_token:
  assumes "w \<noteq> []" and "list_all (\<lambda>c. \<not> isspace c) w" and "r = [] \<or> isspace (hd r)"
  shows "join '' '' (split_ws (w @ r))
       = w @ (if split_ws r = [] then [] else '' '' @ join '' '' (split_ws r))"
  using split_ws_token [OF assms] by (simp add: join_Cons)

lemma normalised_suffix:
  "suffix t (join '' '' (split_ws s)) \<Longrightarrow> t \<noteq> [] \<Longrightarrow> \<not> isspace (hd t) \<Longrightarrow>
   \<exists>w r. w \<noteq> [] \<and> list_all (\<lambda>c. \<not> isspace c) w \<and> (r = [] \<or> isspace (hd r))
       \<and> suffix (w @ r) s
       \<and> t = w @ (if split_ws r = [] then [] else '' '' @ join '' '' (split_ws r))"
proof (induction s arbitrary: t rule: split_ws.induct)
  case (1 s)
  let ?t0 = "dropWhile isspace s"
  let ?tok = "takeWhile (\<lambda>c. \<not> isspace c) ?t0"
  let ?r0 = "dropWhile (\<lambda>c. \<not> isspace c) ?t0"
  let ?tail = "if split_ws ?r0 = [] then [] else '' '' @ join '' '' (split_ws ?r0)"
  have ne: "?t0 \<noteq> []"
    using "1.prems"(1,2) split_ws_blank [of s] by fastforce
  have tok: "list_all (\<lambda>c. \<not> isspace c) ?tok"
    by (rule list_all_takeWhile)
  have r0: "?r0 = [] \<or> isspace (hd ?r0)"
    using hd_dropWhile [of "\<lambda>c. \<not> isspace c" ?t0] by auto
  have t0: "?t0 = ?tok @ ?r0" by simp
  have s0: "suffix ?t0 s"
    by (rule suffix_dropWhile)
  have norm: "join '' '' (split_ws s) = ?tok @ ?tail"
    by (simp add: split_ws_unfold [OF ne] join_Cons)
  from "1.prems"(1) have "suffix t (?tok @ ?tail)"
    by (simp only: norm)
  then consider (inner) zs where "t = zs @ ?tail" "suffix zs ?tok" | (later) "suffix t ?tail"
    by (auto simp: suffix_append)
  then show ?case
  proof cases
    case inner
    have zne: "zs \<noteq> []"
    proof
      assume "zs = []"
      then have "t = ?tail" using inner by simp
      then show False using "1.prems"(2,3) by (auto simp: isspace_def split: if_splits)
    qed
    from inner(2) obtain p where p: "?tok = p @ zs" by (auto simp: suffix_def)
    have zs: "list_all (\<lambda>c. \<not> isspace c) zs"
    proof -
      have "list_all (\<lambda>c. \<not> isspace c) (p @ zs)" using tok p by simp
      then show ?thesis by simp
    qed
    have "?t0 = p @ zs @ ?r0" using t0 p by simp
    then have "suffix (zs @ ?r0) ?t0" by (metis suffixI)
    then have suf: "suffix (zs @ ?r0) s" using s0 by (rule suffix_order.trans)
    show ?thesis
    proof (intro exI conjI)
      show "zs \<noteq> []" by (rule zne)
      show "list_all (\<lambda>c. \<not> isspace c) zs" by (rule zs)
      show "?r0 = [] \<or> isspace (hd ?r0)" by (rule r0)
      show "suffix (zs @ ?r0) s" by (rule suf)
      show "t = zs @ ?tail" by (rule inner(1))
    qed
  next
    case later
    have nonempty: "split_ws ?r0 \<noteq> []"
    proof
      assume "split_ws ?r0 = []"
      then have "suffix t []" using later by simp
      then show False using "1.prems"(2) by simp
    qed
    have "t \<noteq> CHR '' '' # join '' '' (split_ws ?r0)"
    proof
      assume "t = CHR '' '' # join '' '' (split_ws ?r0)"
      then have "isspace (hd t)" by (simp add: isspace_def)
      then show False using "1.prems"(3) by simp
    qed
    moreover have "suffix t (CHR '' '' # join '' '' (split_ws ?r0))"
      using later nonempty by simp
    ultimately have "suffix t (join '' '' (split_ws ?r0))"
      by (simp add: suffix_Cons)
    then have "\<exists>w r. w \<noteq> [] \<and> list_all (\<lambda>c. \<not> isspace c) w \<and> (r = [] \<or> isspace (hd r))
       \<and> suffix (w @ r) ?r0
       \<and> t = w @ (if split_ws r = [] then [] else '' '' @ join '' '' (split_ws r))"
      using "1.prems"(2,3) by (rule "1.IH" [OF refl ne])
    then obtain w r where wr: "w \<noteq> []" "list_all (\<lambda>c. \<not> isspace c) w"
        "r = [] \<or> isspace (hd r)" "suffix (w @ r) ?r0"
        "t = w @ (if split_ws r = [] then [] else '' '' @ join '' '' (split_ws r))"
      by (elim exE conjE)
    have "suffix ?r0 ?t0" by (rule suffix_dropWhile)
    then have "suffix ?r0 s" using s0 by (rule suffix_order.trans)
    with wr(4) have suf: "suffix (w @ r) s" by (rule suffix_order.trans)
    show ?thesis
    proof (intro exI conjI)
      show "w \<noteq> []" by (rule wr(1))
      show "list_all (\<lambda>c. \<not> isspace c) w" by (rule wr(2))
      show "r = [] \<or> isspace (hd r)" by (rule wr(3))
      show "suffix (w @ r) s" by (rule suf)
      show "t = w @ (if split_ws r = [] then [] else '' '' @ join '' '' (split_ws r))"
        by (rule wr(5))
    qed
  qed
qed

lemma match_angle_iff:
  "match_angle (c # cs) = None \<longleftrightarrow>
     \<not> (c = CHR ''<'' \<and> cs \<noteq> [] \<and> hd cs \<noteq> CHR ''>'' \<and> CHR ''>'' \<in> set cs)"
  by (auto simp: takeWhile_eq_Nil_iff dropWhile_eq_Nil_conv)

lemma match_redaction_iff:
  "match_redaction s = None \<longleftrightarrow>
     \<not> (startswith s ''/RD-'' \<and> drop 4 s \<noteq> [] \<and> hd (drop 4 s) \<noteq> CHR ''/''
     \<and> CHR ''/'' \<in> set (drop 4 s))"
  by (auto simp: match_redaction_def Let_def takeWhile_eq_Nil_iff dropWhile_eq_Nil_conv)

lemma startswith_in_token:
  assumes "list_all (\<lambda>c. \<not> isspace c) p" and "x = [] \<or> isspace (hd x)"
  shows "startswith (w @ x) p \<Longrightarrow> \<exists>w'. w = p @ w'"
  using assms(1)
proof (induction p arbitrary: w)
  case Nil
  then show ?case by simp
next
  case (Cons a p)
  show ?case
  proof (cases w)
    case Nil
    then have "startswith x (a # p)" using Cons.prems(1) by simp
    then have "x \<noteq> []" "hd x = a" by (cases x; simp add: startswith_def)+
    then show ?thesis using assms(2) Cons.prems(2) by simp
  next
    case (Cons b w1)
    then have "b = a" "startswith (w1 @ x) p"
      using Cons.prems(1) by (simp_all add: startswith_Cons)
    moreover have "list_all (\<lambda>c. \<not> isspace c) p" using Cons.prems(2) by simp
    ultimately show ?thesis using Cons.IH [of w1] Cons by auto
  qed
qed

lemma match_angle_reflect:
  assumes "w \<noteq> []" and "r = [] \<or> isspace (hd r)"
    and "set x \<subseteq> insert (CHR '' '') (set r)"
    and "match_angle (w @ r) = None"
  shows "match_angle (w @ x) = None"
proof (rule ccontr)
  assume m: "match_angle (w @ x) \<noteq> None"
  obtain c w1 where w: "w = c # w1" using assms(1) by (cases w) auto
  from m w have "\<not> match_angle (c # w1 @ x) = None" by simp
  then have c: "c = CHR ''<''" and ne: "w1 @ x \<noteq> []"
    and h: "hd (w1 @ x) \<noteq> CHR ''>''" and g: "CHR ''>'' \<in> set (w1 @ x)"
    unfolding match_angle_iff by blast+
  from g assms(3) have g': "CHR ''>'' \<in> set (w1 @ r)" by auto
  have h': "hd (w1 @ r) \<noteq> CHR ''>''"
  proof (cases w1)
    case Nil
    then have "r \<noteq> []" using g' by auto
    then have "isspace (hd r)" using assms(2) by simp
    then show ?thesis using Nil by (auto simp: isspace_def)
  next
    case (Cons a w2)
    then show ?thesis using h by simp
  qed
  have "\<not> match_angle (c # w1 @ r) = None"
    unfolding match_angle_iff using c g' h' by auto
  then show False using assms(4) w by simp
qed

lemma match_redaction_reflect:
  assumes "w \<noteq> []" and "r = [] \<or> isspace (hd r)"
    and "x = [] \<or> isspace (hd x)"
    and "set x \<subseteq> insert (CHR '' '') (set r)"
    and "match_redaction (w @ r) = None"
  shows "match_redaction (w @ x) = None"
proof (rule ccontr)
  assume m: "match_redaction (w @ x) \<noteq> None"
  then have sw: "startswith (w @ x) ''/RD-''" unfolding match_redaction_iff by blast
  have "list_all (\<lambda>c. \<not> isspace c) ''/RD-''" by (simp add: isspace_def)
  then obtain w1 where w: "w = ''/RD-'' @ w1"
    using startswith_in_token [OF _ assms(3) sw] by blast
  from m have "hd (drop 4 (w @ x)) \<noteq> CHR ''/'' \<and> CHR ''/'' \<in> set (drop 4 (w @ x))"
    unfolding match_redaction_iff by blast
  then have h: "hd (w1 @ x) \<noteq> CHR ''/''" and g: "CHR ''/'' \<in> set (w1 @ x)"
    using w by simp_all
  from g assms(4) have g': "CHR ''/'' \<in> set (w1 @ r)" by auto
  have h': "hd (w1 @ r) \<noteq> CHR ''/''"
  proof (cases w1)
    case Nil
    then have "r \<noteq> []" using g' by auto
    then have "isspace (hd r)" using assms(2) by simp
    then show ?thesis using Nil by (auto simp: isspace_def)
  next
    case (Cons a w2)
    then show ?thesis using h by simp
  qed
  have "\<not> match_redaction (''/RD-'' @ w1 @ r) = None"
    unfolding match_redaction_iff using g' h' by (auto simp: startswith_def)
  then show False using assms(5) w by simp
qed

lemma match_descriptor_reflect:
  assumes "w \<noteq> []" and "x = [] \<or> isspace (hd x)"
    and "match_descriptor (w @ r) = None"
  shows "match_descriptor (w @ x) = None"
proof (rule ccontr)
  assume m: "match_descriptor (w @ x) \<noteq> None"
  obtain c w1 where w: "w = c # w1" using assms(1) by (cases w) auto
  from m w have c: "c = CHR ''(''" and a: "takeWhile isalpha_ascii (w1 @ x) \<noteq> []"
    and p: "startswith (dropWhile isalpha_ascii (w1 @ x)) '')''"
    by (auto split: if_splits)
  have sp: "\<not> isalpha_ascii ch" if "isspace ch" for ch
    using that by (auto simp: isspace_def isalpha_ascii_def isupper_ascii_def)
  have ex: "\<exists>ch \<in> set w1. \<not> isalpha_ascii ch"
  proof (rule ccontr)
    assume "\<not> (\<exists>ch \<in> set w1. \<not> isalpha_ascii ch)"
    then have all: "\<forall>ch \<in> set w1. isalpha_ascii ch" by simp
    then have "dropWhile isalpha_ascii (w1 @ x) = dropWhile isalpha_ascii x"
      by (simp add: dropWhile_append)
    also have "\<dots> = x"
      using assms(2) sp by (cases x) auto
    finally have "startswith x '')''" using p by simp
    then have "x \<noteq> []" "hd x = CHR '')''" by (cases x; simp add: startswith_def)+
    then show False using assms(2) by (auto simp: isspace_def)
  qed
  then obtain ch where ch: "ch \<in> set w1" "\<not> isalpha_ascii ch" by blast
  have t: "takeWhile isalpha_ascii (w1 @ y) = takeWhile isalpha_ascii w1" for y
    using ch by (rule takeWhile_append1)
  have d: "dropWhile isalpha_ascii (w1 @ y) = dropWhile isalpha_ascii w1 @ y" for y
    using ch by (rule dropWhile_append1)
  have dne: "dropWhile isalpha_ascii w1 \<noteq> []"
    using ch by (auto simp: dropWhile_eq_Nil_conv)
  have "startswith (dropWhile isalpha_ascii w1 @ y) '')''" for y
    using p dne unfolding d by (cases "dropWhile isalpha_ascii w1") (auto simp: startswith_def)
  then have "match_descriptor (c # w1 @ r) \<noteq> None"
    using c a by (simp add: t d)
  then show False using assms(3) w by simp
qed

section \<open>Cleaning a clean string again\<close>

lemma match_angle_shorter: "match_angle (c # cs) = Some r \<Longrightarrow> length r \<le> length cs"
proof -
  assume "match_angle (c # cs) = Some r"
  then have "r = tl (dropWhile (\<lambda>x. x \<noteq> CHR ''>'') cs)"
    by (simp split: if_splits)
  then show ?thesis
    using length_dropWhile_le [of "\<lambda>x. x \<noteq> CHR ''>''" cs] by simp
qed

lemma match_redaction_shorter: "match_redaction (c # cs) = Some r \<Longrightarrow> length r \<le> length cs"
proof -
  assume "match_redaction (c # cs) = Some r"
  then have "r = tl (dropWhile (\<lambda>x. x \<noteq> CHR ''/'') (drop 4 (c # cs)))"
    by (simp add: match_redaction_def Let_def split: if_splits)
  then show ?thesis
    using length_dropWhile_le [of "\<lambda>x. x \<noteq> CHR ''/''" "drop 4 (c # cs)"] by simp
qed

lemma match_descriptor_shorter: "match_descriptor (c # cs) = Some r \<Longrightarrow> length r \<le> length cs"
proof -
  assume "match_descriptor (c # cs) = Some r"
  then have "r = tl (dropWhile isalpha_ascii cs)"
    by (simp split: if_splits)
  then show ?thesis
    using length_dropWhile_le [of isalpha_ascii cs] by simp
qed

lemma match_redaction_words_shorter:
  "match_redaction_words (c # cs) = Some r \<Longrightarrow> length r \<le> length cs"
proof -
  assume "match_redaction_words (c # cs) = Some r"
  then have "r = tl (dropWhile isdigit (drop 1 (dropWhile isupper_ascii (drop 4 (c # cs)))))"
    by (simp add: match_redaction_words_def Let_def split: if_splits)
  moreover have "length (dropWhile isdigit (drop 1 (dropWhile isupper_ascii (drop 4 (c # cs)))))
      \<le> length (dropWhile isupper_ascii (drop 4 (c # cs)))"
    using length_dropWhile_le [of isdigit "drop 1 (dropWhile isupper_ascii (drop 4 (c # cs)))"]
    by simp
  moreover have "length (dropWhile isupper_ascii (drop 4 (c # cs))) \<le> length (c # cs)"
    using length_dropWhile_le [of isupper_ascii "drop 4 (c # cs)"] by simp
  ultimately show ?thesis by simp
qed

lemma normalised_tail:
  "set (if split_ws r = [] then [] else '' '' @ join '' '' (split_ws r))
     \<subseteq> insert (CHR '' '') (set r)"
  using set_normalised [of r] by auto

lemma normalised_tail_head:
  "(if split_ws r = [] then [] else '' '' @ join '' '' (split_ws r)) = []
   \<or> isspace (hd (if split_ws r = [] then [] else '' '' @ join '' '' (split_ws r)))"
  by (simp add: isspace_def)

lemma re_sub_del_normalised:
  assumes short: "\<And>c cs r. m (c # cs) = Some r \<Longrightarrow> length r \<le> length cs"
    and space: "\<And>c cs. isspace c \<Longrightarrow> m (c # cs) = None"
    and reflect: "\<And>w r x. w \<noteq> [] \<Longrightarrow> r = [] \<or> isspace (hd r) \<Longrightarrow> x = [] \<or> isspace (hd x)
        \<Longrightarrow> set x \<subseteq> insert (CHR '' '') (set r) \<Longrightarrow> m (w @ r) = None \<Longrightarrow> m (w @ x) = None"
    and fixed: "re_sub_del m s = s"
  shows "re_sub_del m (join '' '' (split_ws s)) = join '' '' (split_ws s)"
proof (rule re_sub_del_no_suffix)
  fix t
  assume t1: "suffix t (join '' '' (split_ws s))" and t2: "t \<noteq> []"
  show "m t = None"
  proof (cases "isspace (hd t)")
    case True
    obtain c cs where "t = c # cs" using t2 by (cases t) auto
    then show ?thesis using True space by simp
  next
    case False
    from t1 t2 False
    have "\<exists>w r. w \<noteq> [] \<and> list_all (\<lambda>c. \<not> isspace c) w \<and> (r = [] \<or> isspace (hd r))
       \<and> suffix (w @ r) s
       \<and> t = w @ (if split_ws r = [] then [] else '' '' @ join '' '' (split_ws r))"
      by (rule normalised_suffix)
    then obtain w r where w: "w \<noteq> []" and r: "r = [] \<or> isspace (hd r)"
      and suf: "suffix (w @ r) s"
      and t: "t = w @ (if split_ws r = [] then [] else '' '' @ join '' '' (split_ws r))"
      by (elim exE conjE)
    have "w @ r \<noteq> []" using w by simp
    with short fixed suf have "m (w @ r) = None"
      by (rule re_sub_del_fixed_suffix)
    with w r normalised_tail_head normalised_tail
    have "m (w @ (if split_ws r = [] then [] else '' '' @ join '' '' (split_ws r))) = None"
      by (rule reflect)
    then show ?thesis by (simp only: t)
  qed
qed

lemma sub_angle_normalised:
  assumes "sub_angle s = s"
  shows "sub_angle (join '' '' (split_ws s)) = join '' '' (split_ws s)"
  unfolding sub_angle_def
proof (rule re_sub_del_normalised)
  show "match_angle (c # cs) = Some r \<Longrightarrow> length r \<le> length cs" for c cs r
    by (rule match_angle_shorter)
  show "isspace c \<Longrightarrow> match_angle (c # cs) = None" for c cs
    by (rule match_angle_head) (auto simp: isspace_def)
  show "w \<noteq> [] \<Longrightarrow> r = [] \<or> isspace (hd r) \<Longrightarrow> x = [] \<or> isspace (hd x)
        \<Longrightarrow> set x \<subseteq> insert (CHR '' '') (set r) \<Longrightarrow> match_angle (w @ r) = None
        \<Longrightarrow> match_angle (w @ x) = None" for w r x
    by (rule match_angle_reflect)
  show "re_sub_del match_angle s = s"
    using assms by (simp only: sub_angle_def)
qed

lemma sub_redaction_normalised:
  assumes "sub_redaction s = s"
  shows "sub_redaction (join '' '' (split_ws s)) = join '' '' (split_ws s)"
  unfolding sub_redaction_def
proof (rule re_sub_del_normalised)
  show "match_redaction (c # cs) = Some r \<Longrightarrow> length r \<le> length cs" for c cs r
    by (rule match_redaction_shorter)
  show "isspace c \<Longrightarrow> match_redaction (c # cs) = None" for c cs
    by (rule match_redaction_head) (auto simp: isspace_def)
  show "w \<noteq> [] \<Longrightarrow> r = [] \<or> isspace (hd r) \<Longrightarrow> x = [] \<or> isspace (hd x)
        \<Longrightarrow> set x \<subseteq> insert (CHR '' '') (set r) \<Longrightarrow> match_redaction (w @ r) = None
        \<Longrightarrow> match_redaction (w @ x) = None" for w r x
    by (rule match_redaction_reflect)
  show "re_sub_del match_redaction s = s"
    using assms by (simp only: sub_redaction_def)
qed

lemma sub_descriptor_normalised:
  assumes "sub_descriptor s = s"
  shows "sub_descriptor (join '' '' (split_ws s)) = join '' '' (split_ws s)"
  unfolding sub_descriptor_def
proof (rule re_sub_del_normalised)
  show "match_descriptor (c # cs) = Some r \<Longrightarrow> length r \<le> length cs" for c cs r
    by (rule match_descriptor_shorter)
  show "isspace c \<Longrightarrow> match_descriptor (c # cs) = None" for c cs
    by (rule match_descriptor_head) (auto simp: isspace_def)
  show "w \<noteq> [] \<Longrightarrow> r = [] \<or> isspace (hd r) \<Longrightarrow> x = [] \<or> isspace (hd x)
        \<Longrightarrow> set x \<subseteq> insert (CHR '' '') (set r) \<Longrightarrow> match_descriptor (w @ r) = None
        \<Longrightarrow> match_descriptor (w @ x) = None" for w r x
    by (rule match_descriptor_reflect)
  show "re_sub_del match_descriptor s = s"
    using assms by (simp only: sub_descriptor_def)
qed

lemma sub_brackets_normalised:
  assumes "CHR ''['' \<notin> set s" and "CHR '']'' \<notin> set s"
  shows "sub_brackets (join '' '' (split_ws s)) = join '' '' (split_ws s)"
  using assms set_normalised [of s] by (intro sub_brackets_id) auto

lemma re_sub_del_fixed_iff:
  assumes "\<And>c cs r. m (c # cs) = Some r \<Longrightarrow> length r \<le> length cs"
  shows "re_sub_del m s = s \<longleftrightarrow> (\<forall>t. suffix t s \<and> t \<noteq> [] \<longrightarrow> m t = None)"
proof
  assume "re_sub_del m s = s"
  with assms show "\<forall>t. suffix t s \<and> t \<noteq> [] \<longrightarrow> m t = None"
    using re_sub_del_fixed_suffix [of m s] by blast
next
  assume "\<forall>t. suffix t s \<and> t \<noteq> [] \<longrightarrow> m t = None"
  then show "re_sub_del m s = s"
    by (intro re_sub_del_no_suffix) simp
qed

lemma clean_text_not_idempotent_in_general:
  "clean_text ''/R(a)D-x/'' = ''/RD-x/'' \<and> clean_text ''/RD-x/'' = []"
  by code_simp

text \<open>
  Claim C8. A content string is already clean when it holds no square bracket and none of
  the three span substitutions finds anything to remove in it, which by
  \<open>re_sub_del_fixed_iff\<close> says that no position of the string starts an angle-bracket
  span, a redaction span or a one-word descriptor in parentheses. On such a string the
  cleaning of the text extractor only normalises white space, and cleaning its output
  again gives the same string: normalising white space creates no new span.
\<close>

theorem clean_text_idempotent_on_clean:
  assumes "CHR ''['' \<notin> set content" and "CHR '']'' \<notin> set content"
    and "sub_angle content = content"
    and "sub_redaction content = content"
    and "sub_descriptor content = content"
  shows "clean_text content = join '' '' (split_ws content)
       \<and> clean_text (clean_text content) = clean_text content"
proof -
  have 1: "clean_text content = join '' '' (split_ws content)"
    using assms by (simp add: clean_text_def sub_brackets_id)
  have "clean_text (join '' '' (split_ws content))
      = join '' '' (split_ws (join '' '' (split_ws content)))"
    using assms
    by (simp add: clean_text_def sub_brackets_normalised sub_angle_normalised
        sub_redaction_normalised sub_descriptor_normalised)
  then have "clean_text (join '' '' (split_ws content)) = join '' '' (split_ws content)"
    by (simp add: split_ws_normalised)
  then show ?thesis using 1 by simp
qed

theorem clean_text_idempotent_on_clean_witness:
  "sub_angle ''  he  said (uh huh) hello '' = ''  he  said (uh huh) hello ''
   \<and> sub_redaction ''  he  said (uh huh) hello '' = ''  he  said (uh huh) hello ''
   \<and> sub_descriptor ''  he  said (uh huh) hello '' = ''  he  said (uh huh) hello ''
   \<and> clean_text ''  he  said (uh huh) hello '' = ''he said (uh huh) hello''
   \<and> clean_text (clean_text ''  he  said (uh huh) hello '')
       = clean_text ''  he  said (uh huh) hello ''"
proof -
  have h1: "CHR ''['' \<notin> set ''  he  said (uh huh) hello ''" by simp
  have h2: "CHR '']'' \<notin> set ''  he  said (uh huh) hello ''" by simp
  have h3: "sub_angle ''  he  said (uh huh) hello '' = ''  he  said (uh huh) hello ''"
    by code_simp
  have h4: "sub_redaction ''  he  said (uh huh) hello '' = ''  he  said (uh huh) hello ''"
    by code_simp
  have h5: "sub_descriptor ''  he  said (uh huh) hello '' = ''  he  said (uh huh) hello ''"
    by code_simp
  have v: "clean_text ''  he  said (uh huh) hello '' = ''he said (uh huh) hello''"
    by code_simp
  have "clean_text (clean_text ''  he  said (uh huh) hello '')
       = clean_text ''  he  said (uh huh) hello ''"
    using clean_text_idempotent_on_clean [OF h1 h2 h3 h4 h5] by (rule conjunct2)
  with h3 h4 h5 v show ?thesis by (intro conjI)
qed

end
